theory Spec2Isabelle
  imports Complex_Main "HOL-Library.Multiset"
begin

section \<open>Data model\<close>

text \<open>
  A \<open>datetime\<close> is read as whole seconds since the epoch, so that
  \<open>int(now.timestamp())\<close> is the value itself and \<open>timedelta(days=1)\<close> is 86400.
  A Python float (\<open>usage_rate\<close>) is the rational its double denotes; arithmetic on
  floats rounds as IEEE 754 binary64 does (\<open>round_double\<close> below).
\<close>

type_synonym datetime = int

record Node =
  node_id :: int
  node_enabled :: bool
  node_removed :: bool
  usage_rate :: "rat option"
  offset_link :: int
  batch_size :: int
  priority :: int
  show_configs :: bool

record SubscriptionUsage =
  subscription_id :: int
  usage_node_id :: int
  usage :: int
  raw_usage :: int
  created_at :: datetime
  updated_at :: "datetime option"

record Subscription =
  sub_id :: int
  server_key :: string
  enabled :: bool
  activated :: bool
  reached :: bool
  debted :: bool
  onreached_expire :: bool
  onreached_usage :: bool
  removed :: bool
  limit_usage :: "int option"
  reset_usage :: "int option"
  limit_expire :: int
  total_usage :: int
  last_reset_at :: "datetime option"
  reached_at :: "datetime option"
  inactive_at :: "datetime option"

record SubscriptionAutoRenewal =
  renewal_id :: int
  renewal_subscription_id :: int
  renewal_limit_expire :: int
  renewal_limit_usage :: "int option"
  renewal_reset_usage :: bool

datatype notification = ActivatedExpire int

section \<open>Python arithmetic\<close>

text \<open>\<open>int(x)\<close> on a float truncates toward zero.\<close>

definition py_int :: "rat \<Rightarrow> int" where
  "py_int x = (if 0 \<le> x then \<lfloor>x\<rfloor> else \<lceil>x\<rceil>)"

text \<open>\<open>round(x)\<close> rounds to the nearest integer, a tie to the even one. The source never
  calls it; it is what the specification's \<open>round(d \<times> rate)\<close> denotes.\<close>

definition py_round :: "rat \<Rightarrow> int" where
  "py_round x =
     (let f = \<lfloor>x\<rfloor>; d = x - of_int f
      in if d < 1 / 2 then f else if 1 / 2 < d then f + 1 else if even f then f else f + 1)"

text \<open>\<open>node.usage_rate or 1.0\<close>: an unset rate and the rate 0.0 are both falsy.\<close>

definition rate_or_default :: "Node \<Rightarrow> rat" where
  "rate_or_default node =
     (case usage_rate node of None \<Rightarrow> 1 | Some r \<Rightarrow> if r = 0 then 1 else r)"

text \<open>
  Python's \<open>float\<close> is IEEE 754 binary64. A finite double is the rational it denotes, and
  an arithmetic result is the exact result rounded to the nearest double, a tie to the one
  with the even significand. \<open>round_double\<close> is that rounding: a positive \<open>x\<close> with
  \<open>2 ^ e \<le> x < 2 ^ (e + 1)\<close> is rounded to a multiple of \<open>2 ^ (e - 52)\<close>, and to a
  multiple of \<open>2 ^ (- 1074)\<close> in the subnormal range. The overflow to infinity (beyond
  about \<open>1.8e308\<close>) is not modelled: counters below \<open>2 ^ 63\<close> times rates of any ordinary
  size stay far from it.
\<close>

definition pow2 :: "int \<Rightarrow> rat" where
  "pow2 e = (if 0 \<le> e then 2 ^ nat e else 1 / 2 ^ nat (- e))"

text \<open>The number of binary digits of a positive integer.\<close>

function bit_length :: "int \<Rightarrow> int" where
  "bit_length a = (if a \<le> 0 then 0 else 1 + bit_length (a div 2))"
  by pat_completeness auto
termination
  by (relation "measure nat") auto

declare bit_length.simps [simp del]

text \<open>For a positive \<open>x\<close>, the \<open>e\<close> with \<open>2 ^ e \<le> x < 2 ^ (e + 1)\<close>.\<close>

definition floor_log2 :: "rat \<Rightarrow> int" where
  "floor_log2 x =
     (case quotient_of x of (a, b) \<Rightarrow>
        (let e0 = bit_length a - bit_length b
         in if pow2 e0 \<le> x then e0 else e0 - 1))"

definition round_double :: "rat \<Rightarrow> rat" where
  "round_double x =
     (if x = 0 then 0
      else
        (let m = \<bar>x\<bar>;
             q = pow2 (max (floor_log2 m) (- 1022) - 52);
             y = q * of_int (py_round (m / q))
         in if 0 < x then y else - y))"

text \<open>\<open>delta * rate\<close> for an \<open>int\<close> and a \<open>float\<close>: the integer is converted to a double,
  and the product of the two doubles is rounded.\<close>

definition float_mul :: "int \<Rightarrow> rat \<Rightarrow> rat" where
  "float_mul d rate = round_double (round_double (of_int d) * rate)"

section \<open>Derived subscription predicates (subscription.py)\<close>

definition current_usage :: "Subscription \<Rightarrow> int" where
  "current_usage sub = total_usage sub - (case reset_usage sub of None \<Rightarrow> 0 | Some r \<Rightarrow> r)"

text \<open>\<open>not self.limit_usage\<close> holds for \<open>None\<close> and for 0.\<close>

definition limited :: "Subscription \<Rightarrow> bool" where
  "limited sub =
     (case limit_usage sub of
        None \<Rightarrow> False
      | Some l \<Rightarrow> if l = 0 \<or> l \<le> 0 then False else l - current_usage sub < 0)"

definition expired :: "datetime \<Rightarrow> Subscription \<Rightarrow> bool" where
  "expired now sub = (if limit_expire sub > 0 then now > limit_expire sub else False)"

text \<open>The SQL side of the hybrid property, and the tracker's own copy of it.\<close>

definition expired_expression :: "datetime \<Rightarrow> Subscription \<Rightarrow> bool" where
  "expired_expression now sub = (limit_expire sub > 0 \<and> limit_expire sub < now)"

definition expired_expr :: "int \<Rightarrow> Subscription \<Rightarrow> bool" where
  "expired_expr now_ts sub = (limit_expire sub > 0 \<and> limit_expire sub < now_ts)"

definition coalesce :: "int option \<Rightarrow> int \<Rightarrow> int" where
  "coalesce v d = (case v of None \<Rightarrow> d | Some x \<Rightarrow> x)"

definition limited_expr :: "Subscription \<Rightarrow> bool" where
  "limited_expr sub =
     (coalesce (limit_usage sub) 0 > 0 \<and>
      coalesce (limit_usage sub) 0 - (total_usage sub - coalesce (reset_usage sub) 0) < 0)"

definition pending :: "Subscription \<Rightarrow> bool" where
  "pending sub = (limit_expire sub < 0)"

definition is_active :: "datetime \<Rightarrow> Subscription \<Rightarrow> bool" where
  "is_active now sub =
     (enabled sub \<and> activated sub \<and> \<not> expired now sub \<and> \<not> limited sub \<and> \<not> debted sub)"

text \<open>\<open>should_be_remove\<close>: reached, or inactive, for more than a day.\<close>

definition should_be_remove :: "datetime \<Rightarrow> Subscription \<Rightarrow> bool" where
  "should_be_remove now sub =
     ((case reached_at sub of None \<Rightarrow> False | Some t \<Rightarrow> now - t > 86400) \<or>
      (case inactive_at sub of None \<Rightarrow> False | Some t \<Rightarrow> now - t > 86400))"

section \<open>Usage upsert (subscription.py)\<close>

definition activate_expire :: "datetime \<Rightarrow> Subscription \<Rightarrow> Subscription \<times> notification list" where
  "activate_expire now sub =
     (if limit_expire sub \<noteq> 0 \<and> limit_expire sub < 0
      then (sub\<lparr>limit_expire := now + \<bar>limit_expire sub\<bar>\<rparr>, [ActivatedExpire (sub_id sub)])
      else (sub, []))"

text \<open>
  The inner loop of \<open>bulk_upsert_usages\<close>: walk \<open>sub_usages\<close> up to the first record of
  the node and hour bucket and update it in place. The result is \<open>(found, changed, records)\<close>.
  On a negative delta the source only logs.
\<close>

fun scan_records ::
  "Node \<Rightarrow> int \<Rightarrow> datetime \<Rightarrow> datetime \<Rightarrow> SubscriptionUsage list
    \<Rightarrow> bool \<times> bool \<times> SubscriptionUsage list" where
  "scan_records node usage_value created now [] = (False, False, [])"
| "scan_records node usage_value created now (r # rs) =
     (if usage_node_id r = node_id node \<and> created_at r = created then
        (if raw_usage r \<noteq> usage_value then
           (let delta = usage_value - raw_usage r in
            if delta < 0 then (True, False, r # rs)
            else
              (let u = usage r + py_int (float_mul delta (rate_or_default node));
                   u' = (if u < 0 then 0 else u)
               in (True, True,
                   r\<lparr>usage := u', raw_usage := usage_value, updated_at := Some now\<rparr> # rs)))
         else (True, False, r # rs))
      else
        (case scan_records node usage_value created now rs of
           (found, changed, rs') \<Rightarrow> (found, changed, r # rs')))"

definition new_usage_record :: "int \<Rightarrow> Node \<Rightarrow> int \<Rightarrow> datetime \<Rightarrow> SubscriptionUsage" where
  "new_usage_record sid node usage_value created =
     \<lparr>subscription_id = sid, usage_node_id = node_id node,
      usage = py_int (float_mul usage_value (rate_or_default node)),
      raw_usage = usage_value, created_at = created, updated_at = None\<rparr>"

text \<open>
  The outer loop over \<open>usages.items()\<close>. The state is the list \<open>sub_usages\<close> (mutated in
  place), the records handed to \<open>db.add\<close>, and the flag \<open>changed\<close>.
\<close>

fun bulk_upsert_loop ::
  "int \<Rightarrow> datetime \<Rightarrow> (Node \<times> int \<times> datetime) list
    \<Rightarrow> SubscriptionUsage list \<Rightarrow> SubscriptionUsage list \<Rightarrow> bool
    \<Rightarrow> SubscriptionUsage list \<times> SubscriptionUsage list \<times> bool" where
  "bulk_upsert_loop sid now [] recs added changed = (recs, added, changed)"
| "bulk_upsert_loop sid now ((node, usage_value, created) # rest) recs added changed =
     (if usage_value \<le> 0 then bulk_upsert_loop sid now rest recs added changed
      else
        (case scan_records node usage_value created now recs of
           (found, ch, recs') \<Rightarrow>
             if \<not> found
             then bulk_upsert_loop sid now rest recs'
                    (added @ [new_usage_record sid node usage_value created]) True
             else bulk_upsert_loop sid now rest recs' added (changed \<or> ch)))"

record upsert_result =
  res_sub :: Subscription
  res_records :: "SubscriptionUsage list"
  res_added :: "SubscriptionUsage list"
  res_notifications :: "notification list"

definition bulk_upsert_usages ::
  "datetime \<Rightarrow> Subscription \<Rightarrow> (Node \<times> int \<times> datetime) list \<Rightarrow> SubscriptionUsage list
    \<Rightarrow> upsert_result" where
  "bulk_upsert_usages now sub usages sub_usages =
     (case bulk_upsert_loop (sub_id sub) now usages sub_usages [] False of
        (recs, added, changed) \<Rightarrow>
          (case (if changed then activate_expire now sub else (sub, [])) of
             (sub', ns) \<Rightarrow>
               \<lparr>res_sub = sub', res_records = recs, res_added = added,
                res_notifications = ns\<rparr>))"

text \<open>
  \<open>upsert_usage\<close>, the single-row path: the row is the first one of the table with the
  subscription, node and hour bucket; \<open>replace_first\<close> writes the mutated row back.
\<close>

fun replace_first :: "('a \<Rightarrow> bool) \<Rightarrow> 'a \<Rightarrow> 'a list \<Rightarrow> 'a list" where
  "replace_first P y [] = []"
| "replace_first P y (x # xs) = (if P x then y # xs else x # replace_first P y xs)"

definition usage_key :: "int \<Rightarrow> Node \<Rightarrow> datetime \<Rightarrow> SubscriptionUsage \<Rightarrow> bool" where
  "usage_key sid node created r =
     (subscription_id r = sid \<and> usage_node_id r = node_id node \<and> created_at r = created)"

definition upsert_usage ::
  "datetime \<Rightarrow> Subscription \<Rightarrow> Node \<Rightarrow> int \<Rightarrow> datetime \<Rightarrow> SubscriptionUsage list
    \<Rightarrow> upsert_result" where
  "upsert_usage now sub node usage_value created rows =
     (if usage_value \<le> 0
      then \<lparr>res_sub = sub, res_records = rows, res_added = [], res_notifications = []\<rparr>
      else
        (case find (usage_key (sub_id sub) node created) rows of
           Some existing \<Rightarrow>
             if raw_usage existing = usage_value
             then \<lparr>res_sub = sub, res_records = rows, res_added = [], res_notifications = []\<rparr>
             else
               (let delta = usage_value - raw_usage existing;
                    existing' =
                      (if delta < 0
                       then existing\<lparr>raw_usage := usage_value, updated_at := Some now\<rparr>
                       else
                         (let u = usage existing + py_int (float_mul delta (rate_or_default node));
                              u' = (if u < 0 then 0 else u)
                          in existing\<lparr>usage := u', raw_usage := usage_value,
                                        updated_at := Some now\<rparr>))
                in (case activate_expire now sub of
                      (sub', ns) \<Rightarrow>
                        \<lparr>res_sub = sub',
                         res_records = replace_first (usage_key (sub_id sub) node created) existing' rows,
                         res_added = [], res_notifications = ns\<rparr>))
         | None \<Rightarrow>
             (case activate_expire now sub of
                (sub', ns) \<Rightarrow>
                  \<lparr>res_sub = sub', res_records = rows,
                   res_added = [new_usage_record (sub_id sub) node usage_value created],
                   res_notifications = ns\<rparr>)))"

section \<open>Tracker ticks for one subscription (subs_tracker.py)\<close>

text \<open>
  \<open>track_subscriptions\<close>, seen from one subscription: each tick hands the subscription's
  usage rows and the counters read from the nodes to \<open>bulk_upsert_usages\<close>; the flush
  stores the added records, and the next tick reads the table again.
\<close>

fun usage_ticks ::
  "(datetime \<times> (Node \<times> int \<times> datetime) list) list \<Rightarrow> Subscription \<Rightarrow> SubscriptionUsage list
    \<Rightarrow> Subscription \<times> SubscriptionUsage list \<times> notification list" where
  "usage_ticks [] sub rows = (sub, rows, [])"
| "usage_ticks ((now, usages) # ticks) sub rows =
     (let res = bulk_upsert_usages now sub usages rows in
      case usage_ticks ticks (res_sub res) (res_records res @ res_added res) of
        (sub', rows', ns) \<Rightarrow> (sub', rows', res_notifications res @ ns))"

section \<open>Auxiliary notions for the proofs\<close>

text \<open>The row after the credit branch of either upsert path has run on it.\<close>

definition credited :: "Node \<Rightarrow> int \<Rightarrow> datetime \<Rightarrow> SubscriptionUsage \<Rightarrow> SubscriptionUsage" where
  "credited node c now r =
     r\<lparr>usage := max 0 (usage r + py_int (float_mul (c - raw_usage r) (rate_or_default node))),
       raw_usage := c, updated_at := Some now\<rparr>"

text \<open>The sum of the stored upstream counters: it grows strictly whenever a row is credited.\<close>

definition raw_total :: "SubscriptionUsage list \<Rightarrow> int" where
  "raw_total recs = sum_list (map raw_usage recs)"

section \<open>Admin cache (utils/cache.py)\<close>

text \<open>\<open>time.time()\<close> is a parameter \<open>now\<close> of each operation that reads the clock.\<close>

record Admin =
  admin_id :: int
  admin_username :: string
  api_key :: "string option"

record AdminCacheManager =
  by_username :: "string \<rightharpoonup> Admin"
  by_id :: "int \<rightharpoonup> Admin"
  by_api_key :: "string \<rightharpoonup> Admin"
  cached_at :: real

definition CACHE_TTL :: real where
  "CACHE_TTL = 3000"

text \<open>\<open>if admin.api_key\<close>: \<open>None\<close> and the empty string are falsy.\<close>

definition has_api_key :: "Admin \<Rightarrow> bool" where
  "has_api_key admin = (case api_key admin of None \<Rightarrow> False | Some k \<Rightarrow> k \<noteq> [])"

definition init_cache :: AdminCacheManager where
  "init_cache = \<lparr>by_username = Map.empty, by_id = Map.empty, by_api_key = Map.empty,
                  cached_at = 0\<rparr>"

text \<open>The dict comprehensions of \<open>set_all\<close>: a later admin replaces an earlier one with the
  same key.\<close>

definition set_all :: "real \<Rightarrow> Admin list \<Rightarrow> AdminCacheManager \<Rightarrow> AdminCacheManager" where
  "set_all now admins c =
     c\<lparr>by_username := foldl (\<lambda>m a. m(admin_username a \<mapsto> a)) Map.empty admins,
       by_id := foldl (\<lambda>m a. m(admin_id a \<mapsto> a)) Map.empty admins,
       by_api_key :=
         foldl (\<lambda>m a. if has_api_key a then m(the (api_key a) \<mapsto> a) else m) Map.empty admins,
       cached_at := now\<rparr>"

definition is_expired :: "real \<Rightarrow> AdminCacheManager \<Rightarrow> bool" where
  "is_expired now c = (now - cached_at c > CACHE_TTL)"

definition get_by_username :: "real \<Rightarrow> AdminCacheManager \<Rightarrow> string \<Rightarrow> Admin option" where
  "get_by_username now c username = (if is_expired now c then None else by_username c username)"

definition get_by_id :: "real \<Rightarrow> AdminCacheManager \<Rightarrow> int \<Rightarrow> Admin option" where
  "get_by_id now c aid = (if is_expired now c then None else by_id c aid)"

definition get_by_api_key :: "real \<Rightarrow> AdminCacheManager \<Rightarrow> string \<Rightarrow> Admin option" where
  "get_by_api_key now c k = (if is_expired now c then None else by_api_key c k)"

definition update :: "Admin \<Rightarrow> AdminCacheManager \<Rightarrow> AdminCacheManager" where
  "update admin c =
     (let old_admin = by_id c (admin_id admin);
          c1 = (case old_admin of
                  None \<Rightarrow> c
                | Some old \<Rightarrow>
                    if has_api_key old \<and> api_key old \<noteq> api_key admin
                    then c\<lparr>by_api_key := (by_api_key c)(the (api_key old) := None)\<rparr>
                    else c);
          c2 = c1\<lparr>by_username := (by_username c1)(admin_username admin \<mapsto> admin)\<rparr>;
          c3 = c2\<lparr>by_id := (by_id c2)(admin_id admin \<mapsto> admin)\<rparr>
      in if has_api_key admin
         then c3\<lparr>by_api_key := (by_api_key c3)(the (api_key admin) \<mapsto> admin)\<rparr>
         else c3)"

definition remove :: "Admin \<Rightarrow> AdminCacheManager \<Rightarrow> AdminCacheManager" where
  "remove admin c =
     (let c1 = c\<lparr>by_username := (by_username c)(admin_username admin := None)\<rparr>;
          c2 = c1\<lparr>by_id := (by_id c1)(admin_id admin := None)\<rparr>
      in if has_api_key admin
         then c2\<lparr>by_api_key := (by_api_key c2)(the (api_key admin) := None)\<rparr>
         else c2)"

text \<open>The write-through calls the request handlers make between two \<open>set_all\<close>.\<close>

datatype cache_write = Update Admin | Remove Admin

fun write_through :: "cache_write list \<Rightarrow> AdminCacheManager \<Rightarrow> AdminCacheManager" where
  "write_through [] c = c"
| "write_through (Update admin # ws) c = write_through ws (update admin c)"
| "write_through (Remove admin # ws) c = write_through ws (remove admin c)"

section \<open>Reconciler (tasks/subs_tracker.py)\<close>

record UserResponse =
  user_username :: string
  user_is_active :: bool

text \<open>
  One entry of \<open>nodes_data\<close>: the node, its configs (\<open>None\<close> when the fetch failed) and
  the dict of the users it reported, as the list of its items.
\<close>

type_synonym node_data = "Node \<times> string list option \<times> (string \<times> UserResponse) list"

text \<open>The coroutines \<open>perform_sync_operations\<close> gathers.\<close>

datatype sync_task =
  SyncSubOnNode Node Subscription "UserResponse option"
| RemoveSubBounded string "Node list"

definition perform_sync_operations ::
  "datetime \<Rightarrow> Subscription list \<Rightarrow> node_data list \<Rightarrow> sync_task list" where
  "perform_sync_operations now subs nodes_data =
     (let sync_tasks =
            concat (map (\<lambda>sub.
                if \<not> should_be_remove now sub
                then concat (map (\<lambda>(node, configs, users).
                       if configs \<noteq> None
                       then [SyncSubOnNode node sub (map_of users (server_key sub))]
                       else []) nodes_data)
                else []) subs);
          local_usernames = set (map server_key (filter (\<lambda>sub. \<not> should_be_remove now sub) subs))
      in sync_tasks @
         concat (map (\<lambda>(node, configs, users).
             if configs = None then []
             else map (\<lambda>username. RemoveSubBounded username [node])
                    (filter (\<lambda>username. username \<notin> local_usernames \<and> username \<noteq> ''guard'')
                       (map fst users))) nodes_data))"

text \<open>
  \<open>GuardNodeManager.remove_subscription\<close> calls \<open>remove_user\<close> on every node of the task;
  \<open>sync_sub_on_node\<close> creates, updates, activates or deactivates and never deletes.
  \<open>delete_calls\<close> lists the deletes a run issues, as (node id, username).
\<close>

fun delete_calls :: "sync_task list \<Rightarrow> (int \<times> string) list" where
  "delete_calls [] = []"
| "delete_calls (SyncSubOnNode node sub user # tasks) = delete_calls tasks"
| "delete_calls (RemoveSubBounded username nodes # tasks) =
     map (\<lambda>node. (node_id node, username)) nodes @ delete_calls tasks"

text \<open>The deletes one entry of \<open>nodes_data\<close> contributes to a run.\<close>

definition gc_deletes :: "datetime \<Rightarrow> Subscription list \<Rightarrow> node_data \<Rightarrow> (int \<times> string) list" where
  "gc_deletes now subs nd =
     (case nd of (node, configs, users) \<Rightarrow>
        if configs = None then []
        else map (\<lambda>username. (node_id node, username))
               (filter (\<lambda>username.
                    username \<notin> set (map server_key (filter (\<lambda>sub. \<not> should_be_remove now sub) subs))
                    \<and> username \<noteq> ''guard'') (map fst users)))"

section \<open>Auto-renewal batch (tasks/reached_tracker.py)\<close>

text \<open>
  \<open>row_number() over (partition by subscription_id order by id asc)\<close>: one more than the
  number of renewals of the same subscription with a smaller id.
\<close>

definition rn :: "SubscriptionAutoRenewal list \<Rightarrow> SubscriptionAutoRenewal \<Rightarrow> nat" where
  "rn renewals r =
     Suc (length (filter (\<lambda>q. renewal_subscription_id q = renewal_subscription_id r
                            \<and> renewal_id q < renewal_id r) renewals))"

text \<open>A row of \<open>candidates_query\<close>.\<close>

record candidate_row =
  row_subscription_id :: int
  row_total_usage :: int
  row_renewal_id :: int
  row_renewal_limit_usage :: "int option"
  row_renewal_limit_expire :: int
  row_renewal_reset_usage :: bool

definition candidate :: "Subscription \<Rightarrow> SubscriptionAutoRenewal \<Rightarrow> candidate_row" where
  "candidate sub r =
     \<lparr>row_subscription_id = sub_id sub, row_total_usage = total_usage sub,
      row_renewal_id = renewal_id r, row_renewal_limit_usage = renewal_limit_usage r,
      row_renewal_limit_expire = renewal_limit_expire r,
      row_renewal_reset_usage = renewal_reset_usage r\<rparr>"

definition candidates_query ::
  "int \<Rightarrow> Subscription list \<Rightarrow> SubscriptionAutoRenewal list \<Rightarrow> candidate_row list" where
  "candidates_query now_ts subs renewals =
     concat (map (\<lambda>sub. concat (map (\<lambda>r.
         if renewal_subscription_id r = sub_id sub
            \<and> removed sub = False \<and> reached sub = True
            \<and> (limited_expr sub \<or> expired_expr now_ts sub)
            \<and> rn renewals r = 1
         then [candidate sub r] else []) renewals)) subs)"

text \<open>The payload built from a row, applied to the subscription it names.\<close>

definition apply_payload :: "datetime \<Rightarrow> int \<Rightarrow> candidate_row \<Rightarrow> Subscription \<Rightarrow> Subscription" where
  "apply_payload now_utc now_ts row sub =
     (let renewal_limit_expire = row_renewal_limit_expire row;
          new_limit_expire =
            (if renewal_limit_expire < 0 then renewal_limit_expire
             else if renewal_limit_expire > 0 then now_ts + renewal_limit_expire
             else 0);
          sub' = sub\<lparr>limit_usage := row_renewal_limit_usage row, limit_expire := new_limit_expire,
                     reached := False, reached_at := None,
                     onreached_expire := False, onreached_usage := False\<rparr>
      in if row_renewal_reset_usage row
         then sub'\<lparr>reset_usage := Some (row_total_usage row), last_reset_at := Some now_utc\<rparr>
         else sub')"

text \<open>\<open>db.execute(update(Subscription), updates)\<close>: every payload updates the row with its id.\<close>

fun bulk_update ::
  "datetime \<Rightarrow> int \<Rightarrow> candidate_row list \<Rightarrow> Subscription list \<Rightarrow> Subscription list" where
  "bulk_update now_utc now_ts [] subs = subs"
| "bulk_update now_utc now_ts (row # rows) subs =
     bulk_update now_utc now_ts rows
       (map (\<lambda>sub. if sub_id sub = row_subscription_id row
                    then apply_payload now_utc now_ts row sub else sub) subs)"

definition process_auto_renewals_batch ::
  "datetime \<Rightarrow> int \<Rightarrow> Subscription list \<Rightarrow> SubscriptionAutoRenewal list
    \<Rightarrow> Subscription list \<times> SubscriptionAutoRenewal list \<times> nat" where
  "process_auto_renewals_batch now_utc now_ts subs renewals =
     (let rows = candidates_query now_ts subs renewals in
      if rows = [] then (subs, renewals, 0)
      else
        (let renewal_ids = map row_renewal_id rows
         in (bulk_update now_utc now_ts rows subs,
             filter (\<lambda>r. renewal_id r \<notin> set renewal_ids) renewals,
             length rows)))"

text \<open>The \<open>where\<close> clause of \<open>candidates_query\<close> on the subscription's side, and the rows
  the join yields for one subscription.\<close>

definition renewable :: "int \<Rightarrow> Subscription \<Rightarrow> bool" where
  "renewable now_ts sub =
     (removed sub = False \<and> reached sub = True \<and> (limited_expr sub \<or> expired_expr now_ts sub))"

definition sub_rows ::
  "int \<Rightarrow> SubscriptionAutoRenewal list \<Rightarrow> Subscription \<Rightarrow> candidate_row list" where
  "sub_rows now_ts renewals sub =
     (if renewable now_ts sub
      then map (candidate sub)
             (filter (\<lambda>r. renewal_subscription_id r = sub_id sub \<and> rn renewals r = 1) renewals)
      else [])"

text \<open>The renewals of scenario S2, and one queued behind.\<close>

definition renewal_A :: SubscriptionAutoRenewal where
  "renewal_A =
     \<lparr>renewal_id = 1, renewal_subscription_id = 7, renewal_limit_expire = 86400,
      renewal_limit_usage = Some 500, renewal_reset_usage = True\<rparr>"

definition renewal_B :: SubscriptionAutoRenewal where
  "renewal_B =
     \<lparr>renewal_id = 2, renewal_subscription_id = 7, renewal_limit_expire = - 3600,
      renewal_limit_usage = Some 0, renewal_reset_usage = False\<rparr>"

section \<open>Cached usage, reset and the core operations on one subscription\<close>

text \<open>
  \<open>sync_cached_usages\<close> for one subscription: \<open>total_usage\<close> becomes
  \<open>coalesce(sum(greatest(usage, 0)), 0)\<close> over its usage rows (\<open>online_at\<close> is not
  modelled).
\<close>

definition usage_sum :: "int \<Rightarrow> SubscriptionUsage list \<Rightarrow> int" where
  "usage_sum sid rows =
     sum_list (map (\<lambda>r. max (usage r) 0) (filter (\<lambda>r. subscription_id r = sid) rows))"

definition sync_cached_usages :: "SubscriptionUsage list \<Rightarrow> Subscription \<Rightarrow> Subscription" where
  "sync_cached_usages rows sub = sub\<lparr>total_usage := usage_sum (sub_id sub) rows\<rparr>"

definition reset_usages :: "datetime \<Rightarrow> Subscription \<Rightarrow> Subscription" where
  "reset_usages now sub = sub\<lparr>reset_usage := Some (total_usage sub), last_reset_at := Some now\<rparr>"

text \<open>
  The operations that touch the usage of a subscription, on the subscription and its
  usage rows: the two upsert paths (the flush stores the added rows), the cache refresh,
  the usage reset and an auto-renewal with the renewal it consumes.
\<close>

datatype core_op =
  UpsertUsages datetime "(Node \<times> int \<times> datetime) list"
| UpsertUsage datetime Node int datetime
| SyncCachedUsages
| ResetUsages datetime
| AutoRenewal datetime SubscriptionAutoRenewal

fun core_step ::
  "core_op \<Rightarrow> Subscription \<times> SubscriptionUsage list \<Rightarrow> Subscription \<times> SubscriptionUsage list" where
  "core_step (UpsertUsages now usages) (sub, rows) =
     (let res = bulk_upsert_usages now sub usages rows
      in (res_sub res, res_records res @ res_added res))"
| "core_step (UpsertUsage now node c t) (sub, rows) =
     (let res = upsert_usage now sub node c t rows
      in (res_sub res, res_records res @ res_added res))"
| "core_step SyncCachedUsages (sub, rows) = (sync_cached_usages rows sub, rows)"
| "core_step (ResetUsages now) (sub, rows) = (reset_usages now sub, rows)"
| "core_step (AutoRenewal now r) (sub, rows) =
     (apply_payload now now (candidate sub r) sub, rows)"

fun core_run ::
  "core_op list \<Rightarrow> Subscription \<times> SubscriptionUsage list \<Rightarrow> Subscription \<times> SubscriptionUsage list" where
  "core_run [] st = st"
| "core_run (op # ops) st = core_run ops (core_step op st)"

text \<open>The rates an operation reads are not negative.\<close>

fun rates_nonneg :: "core_op \<Rightarrow> bool" where
  "rates_nonneg (UpsertUsages now usages) = list_all (\<lambda>e. 0 \<le> rate_or_default (fst e)) usages"
| "rates_nonneg (UpsertUsage now node c t) = (0 \<le> rate_or_default node)"
| "rates_nonneg _ = True"

text \<open>The stored reset mark is at most the cached total, which is at most the sum of the
  rows.\<close>

definition usage_inv :: "Subscription \<times> SubscriptionUsage list \<Rightarrow> bool" where
  "usage_inv st =
     (case st of (sub, rows) \<Rightarrow>
        coalesce (reset_usage sub) 0 \<le> total_usage sub
        \<and> total_usage sub \<le> usage_sum (sub_id sub) rows)"

section \<open>Link generator (utils/links.py)\<close>

text \<open>Python slices \<open>xs[:k]\<close> and \<open>xs[k:]\<close>; a negative \<open>k\<close> counts from the end.\<close>

definition py_take :: "int \<Rightarrow> 'a list \<Rightarrow> 'a list" where
  "py_take k xs = (if k < 0 then take (length xs - nat (- k)) xs else take (nat k) xs)"

definition py_drop :: "int \<Rightarrow> 'a list \<Rightarrow> 'a list" where
  "py_drop k xs = (if k < 0 then drop (length xs - nat (- k)) xs else drop (nat k) xs)"

definition availabled :: "Node \<Rightarrow> bool" where
  "availabled node = (node_enabled node \<and> \<not> node_removed node)"

text \<open>
  \<open>_get_node_links\<close>: the cached links of the node, each rewritten by
  \<open>_replace_link_credentials\<close> (a parameter: it returns \<open>None\<close> for a link it cannot
  rewrite); a missing or empty cache entry and a falsy rewritten link give nothing.
\<close>

definition get_node_links ::
  "(int \<rightharpoonup> string list) \<Rightarrow> (Node \<Rightarrow> string \<Rightarrow> string option) \<Rightarrow> Node \<Rightarrow> string list" where
  "get_node_links LINKS replace_link_credentials node =
     (case LINKS (node_id node) of
        None \<Rightarrow> []
      | Some cached \<Rightarrow>
          if cached = [] then []
          else concat (map (\<lambda>cached_link.
                 case replace_link_credentials node cached_link of
                   None \<Rightarrow> []
                 | Some modified_link \<Rightarrow> if modified_link = [] then [] else [modified_link])
               cached))"

text \<open>
  \<open>node_links_map\<close>: for the nodes of the subscription that are available and shown, by
  descending priority (the sort is stable), the node's links from \<open>offset_link\<close> on,
  shuffled. \<open>random.shuffle\<close> is the parameter \<open>shuffle\<close>. The dict is the list of its
  items in insertion order; the nodes of a subscription are distinct.
\<close>

definition node_links_map ::
  "(string list \<Rightarrow> string list) \<Rightarrow> (int \<rightharpoonup> string list) \<Rightarrow> (Node \<Rightarrow> string \<Rightarrow> string option)
    \<Rightarrow> Node list \<Rightarrow> (Node \<times> string list) list" where
  "node_links_map shuffle LINKS replace_link_credentials nodes =
     (let sorted_nodes = sort_key (\<lambda>n. - priority n) nodes;
          active_nodes = filter (\<lambda>node. availabled node \<and> show_configs node) sorted_nodes
      in map (\<lambda>node.
            (node, shuffle (py_drop (offset_link node)
                              (get_node_links LINKS replace_link_credentials node))))
           active_nodes)"

text \<open>\<open>max_links = owner.max_links if owner.max_links and owner.max_links > 0 else None\<close>.\<close>

definition max_links_of :: "int option \<Rightarrow> int option" where
  "max_links_of owner_max_links =
     (case owner_max_links of
        None \<Rightarrow> None
      | Some m \<Rightarrow> if m \<noteq> 0 \<and> m > 0 then Some m else None)"

text \<open>\<open>max_links and link_count >= max_links\<close>; \<open>link_count\<close> is the length of \<open>links\<close>.\<close>

definition reached_max :: "int option \<Rightarrow> string list \<Rightarrow> bool" where
  "reached_max max_links links =
     (case max_links of None \<Rightarrow> False | Some m \<Rightarrow> m \<noteq> 0 \<and> int (length links) \<ge> m)"

text \<open>The loop over the links of one batch.\<close>

fun take_batch :: "int option \<Rightarrow> string list \<Rightarrow> string list \<Rightarrow> string list" where
  "take_batch max_links links [] = links"
| "take_batch max_links links (link # batch) =
     (if reached_max max_links links then links
      else take_batch max_links (links @ [link]) batch)"

text \<open>
  One run of the \<open>for\<close> loop over the nodes: an empty node is skipped, the loop breaks
  once \<open>max_links\<close> is reached, otherwise the node gives \<open>batch_size\<close> links and keeps
  the rest.
\<close>

fun for_nodes ::
  "int option \<Rightarrow> (Node \<times> string list) list \<Rightarrow> string list
    \<Rightarrow> (Node \<times> string list) list \<times> string list" where
  "for_nodes max_links [] links = ([], links)"
| "for_nodes max_links ((node, node_links) # rest) links =
     (if node_links = [] then
        (case for_nodes max_links rest links of
           (rest', links') \<Rightarrow> ((node, node_links) # rest', links'))
      else if reached_max max_links links then ((node, node_links) # rest, links)
      else
        (let batch = py_take (batch_size node) node_links;
             links1 = take_batch max_links links batch
         in case for_nodes max_links rest links1 of
              (rest', links') \<Rightarrow>
                ((node, py_drop (batch_size node) node_links) # rest', links')))"

text \<open>
  The \<open>while\<close> loop. It need not end (a node with links and a batch size of 0 never gives
  any), so it runs on fuel: one unit for each test of the loop condition, \<open>None\<close> when the
  fuel runs out.
\<close>

fun interleave ::
  "nat \<Rightarrow> int option \<Rightarrow> (Node \<times> string list) list \<Rightarrow> string list \<Rightarrow> string list option" where
  "interleave 0 max_links nmap links = None"
| "interleave (Suc fuel) max_links nmap links =
     (if list_all (\<lambda>e. snd e = []) nmap then Some links
      else
        (case for_nodes max_links nmap links of
           (nmap', links') \<Rightarrow>
             if reached_max max_links links' then Some links'
             else interleave fuel max_links nmap' links'))"

text \<open>
  \<open>LinkGeneration.generate\<close>. The placeholder links are a parameter: they are built first,
  from the owner's templates.
\<close>

definition generate ::
  "nat \<Rightarrow> datetime \<Rightarrow> (string list \<Rightarrow> string list) \<Rightarrow> (int \<rightharpoonup> string list)
    \<Rightarrow> (Node \<Rightarrow> string \<Rightarrow> string option) \<Rightarrow> string list \<Rightarrow> Subscription \<Rightarrow> Node list
    \<Rightarrow> int option \<Rightarrow> string list option" where
  "generate fuel now shuffle LINKS replace_link_credentials placeholder_links sub nodes
     owner_max_links =
     (if is_active now sub
      then map_option (\<lambda>links. placeholder_links @ links)
             (interleave fuel (max_links_of owner_max_links)
                (node_links_map shuffle LINKS replace_link_credentials nodes) [])
      else Some (placeholder_links @ []))"

text \<open>All the links the nodes of the map still hold.\<close>

definition all_links :: "(Node \<times> string list) list \<Rightarrow> string list" where
  "all_links nmap = concat (map snd nmap)"






text \<open>What a cap of \<open>max_links\<close> leaves of \<open>xs\<close> when \<open>links\<close> are already there.\<close>

definition cap_from :: "int option \<Rightarrow> string list \<Rightarrow> string list \<Rightarrow> string list" where
  "cap_from max_links links xs =
     (case max_links of None \<Rightarrow> xs | Some m \<Rightarrow> take (nat m - length links) xs)"


definition cap_ok :: "int option \<Rightarrow> bool" where
  "cap_ok max_links = (case max_links of None \<Rightarrow> True | Some m \<Rightarrow> 0 < m)"

section \<open>Scenario data\<close>

text \<open>Subscription X, node N and one usage row of X on N, as in the specification's
  scenarios; the parameters are the fields the scenarios vary.\<close>

definition node_N :: "rat option \<Rightarrow> Node" where
  "node_N rate =
     \<lparr>node_id = 1, node_enabled = True, node_removed = False, usage_rate = rate,
      offset_link = 0, batch_size = 1, priority = 0, show_configs = True\<rparr>"

definition sub_X :: "int \<Rightarrow> Subscription" where
  "sub_X le =
     \<lparr>sub_id = 7, server_key = ''srv_alice'', enabled = True, activated = True,
      reached = False, debted = False, onreached_expire = False, onreached_usage = False,
      removed = False, limit_usage = Some 0, reset_usage = Some 0, limit_expire = le,
      total_usage = 0, last_reset_at = None, reached_at = None, inactive_at = None\<rparr>"

definition usage_row :: "int \<Rightarrow> int \<Rightarrow> SubscriptionUsage" where
  "usage_row u raw =
     \<lparr>subscription_id = 7, usage_node_id = 1, usage = u, raw_usage = raw,
      created_at = 3600, updated_at = Some 3600\<rparr>"

text \<open>Scenario for the link bundle: nodes, cached links and a credential rewrite that keeps the link.\<close>

definition node_P :: "int \<Rightarrow> int \<Rightarrow> int \<Rightarrow> Node" where
  "node_P i b p =
     \<lparr>node_id = i, node_enabled = True, node_removed = False, usage_rate = None,
      offset_link = 0, batch_size = b, priority = p, show_configs = True\<rparr>"

definition links_cache :: "int \<rightharpoonup> string list" where
  "links_cache = [1 \<mapsto> [''a1'', ''a2'', ''a3''], 2 \<mapsto> [''b1'', ''b2'']]"

definition keep_link :: "Node \<Rightarrow> string \<Rightarrow> string option" where
  "keep_link node cached_link = Some cached_link"

section \<open>Double-precision products\<close>

lemma pow2_pos: "0 < pow2 e"
  by (simp add: pow2_def)

lemma py_round_nonneg: "0 \<le> x \<Longrightarrow> 0 \<le> py_round x"
proof -
  assume "0 \<le> x"
  then have "0 \<le> \<lfloor>x\<rfloor>" by simp
  then show ?thesis by (simp add: py_round_def Let_def)
qed

lemma round_double_nonneg: "0 \<le> x \<Longrightarrow> 0 \<le> round_double x"
proof (cases "x = 0")
  case True
  then show ?thesis by (simp add: round_double_def)
next
  case False
  assume "0 \<le> x"
  then have pos: "0 < x" using False by simp
  let ?q = "pow2 (max (floor_log2 \<bar>x\<bar>) (- 1022) - 52)"
  have "0 \<le> \<bar>x\<bar> / ?q" using pow2_pos [of "max (floor_log2 \<bar>x\<bar>) (- 1022) - 52"] by simp
  then have "0 \<le> py_round (\<bar>x\<bar> / ?q)" by (rule py_round_nonneg)
  then have "(0::rat) \<le> of_int (py_round (\<bar>x\<bar> / ?q))" by simp
  then have "0 \<le> ?q * of_int (py_round (\<bar>x\<bar> / ?q))"
    using pow2_pos [of "max (floor_log2 \<bar>x\<bar>) (- 1022) - 52"] by (simp add: mult_nonneg_nonneg)
  then show ?thesis using pos by (simp add: round_double_def Let_def)
qed

lemma float_mul_nonneg: "0 \<le> d \<Longrightarrow> 0 \<le> rate \<Longrightarrow> 0 \<le> float_mul d rate"
proof -
  assume d: "0 \<le> d" and r: "0 \<le> rate"
  have "(0::rat) \<le> of_int d" using d by simp
  then have "0 \<le> round_double (of_int d)" by (rule round_double_nonneg)
  then have "0 \<le> round_double (of_int d) * rate" using r by (rule mult_nonneg_nonneg)
  then show ?thesis unfolding float_mul_def by (rule round_double_nonneg)
qed

lemma pow2_powi: "pow2 e = 2 powi e"
  by (simp add: pow2_def power_int_def power_one_over)

lemma bit_length_nonneg: "0 \<le> bit_length a"
proof (induction a rule: bit_length.induct)
  case (1 a)
  then show ?case by (subst bit_length.simps) simp
qed

lemma bit_length_bounds:
  "0 < a \<Longrightarrow> 2 ^ nat (bit_length a - 1) \<le> a \<and> a < 2 ^ nat (bit_length a)"
proof (induction a rule: bit_length.induct)
  case (1 a)
  show ?case
  proof (cases "a = 1")
    case True
    have "bit_length 1 = 1 + bit_length 0" by (subst bit_length.simps) simp
    also have "bit_length 0 = 0" by (subst bit_length.simps) simp
    finally show ?thesis using True by simp
  next
    case False
    with 1(2) have pos: "0 < a div 2" by simp
    let ?k = "bit_length (a div 2)"
    have ih: "2 ^ nat (?k - 1) \<le> a div 2 \<and> a div 2 < 2 ^ nat ?k"
      using 1(1) 1(2) pos by simp
    have bl: "bit_length a = 1 + ?k" using 1(2) by (subst bit_length.simps) simp
    have kpos: "0 < ?k"
    proof (rule ccontr)
      assume "\<not> 0 < ?k"
      then have "?k = 0" using bit_length_nonneg [of "a div 2"] by simp
      with ih pos show False by simp
    qed
    then have n: "nat ?k = Suc (nat (?k - 1))" by simp
    have "(2::int) ^ nat ?k = 2 * 2 ^ nat (?k - 1)" by (subst n) simp
    also have "\<dots> \<le> 2 * (a div 2)" using ih by simp
    also have "\<dots> \<le> a" by simp
    finally have lo: "2 ^ nat (bit_length a - 1) \<le> a" by (simp add: bl)
    have "a div 2 + 1 \<le> 2 ^ nat ?k" using ih by simp
    then have "2 * (a div 2) + 2 \<le> 2 * 2 ^ nat ?k" by simp
    moreover have "a < 2 * (a div 2) + 2" by simp
    ultimately have "a < 2 * 2 ^ nat ?k" by linarith
    moreover have "nat (bit_length a) = Suc (nat ?k)" using bl kpos by simp
    ultimately have hi: "a < 2 ^ nat (bit_length a)" by simp
    show ?thesis using lo hi by simp
  qed
qed

lemma bit_length_powi:
  assumes "0 < a"
  shows "2 powi (bit_length a - 1) \<le> (of_int a :: rat)" and "(of_int a :: rat) < 2 powi bit_length a"
proof -
  have pos: "0 < bit_length a"
  proof (rule ccontr)
    assume "\<not> 0 < bit_length a"
    then have "bit_length a = 0" using bit_length_nonneg [of a] by simp
    with bit_length_bounds [OF assms] assms show False by simp
  qed
  have "(of_int (2 ^ nat (bit_length a - 1)) :: rat) \<le> of_int a"
    using bit_length_bounds [OF assms] by (simp only: of_int_le_iff)
  then show "2 powi (bit_length a - 1) \<le> (of_int a :: rat)"
    using pos by (simp add: power_int_def)
  have "(of_int a :: rat) < of_int (2 ^ nat (bit_length a))"
    using bit_length_bounds [OF assms] by (simp only: of_int_less_iff)
  then show "(of_int a :: rat) < 2 powi bit_length a"
    using pos by (simp add: power_int_def)
qed

text \<open>\<open>floor_log2\<close> is the binary exponent of a positive number.\<close>

lemma floor_log2_bounds:
  assumes "0 < x"
  shows "pow2 (floor_log2 x) \<le> x \<and> x < pow2 (floor_log2 x + 1)"
proof -
  obtain a b where q: "quotient_of x = (a, b)" by (cases "quotient_of x")
  have b: "0 < b" using q by (rule quotient_of_denom_pos)
  have x: "x = of_int a / of_int b" using q by (rule quotient_of_div)
  have a: "0 < a"
  proof (rule ccontr)
    assume "\<not> 0 < a"
    then have "(of_int a :: rat) \<le> 0" by simp
    moreover have "(0::rat) < of_int b" using b by simp
    ultimately have "x \<le> 0" unfolding x by (simp add: divide_nonpos_pos)
    with assms show False by simp
  qed
  let ?A = "bit_length a" and ?B = "bit_length b"
  have bpos: "(0::rat) < of_int b" using b by simp
  have hi: "x < 2 powi (?A - ?B + 1)"
  proof -
    have "of_int a < (2::rat) powi ?A" using bit_length_powi(2) [OF a] .
    also have "\<dots> = 2 powi (?A - ?B + 1) * 2 powi (?B - 1)"
      by (simp add: power_int_add [symmetric])
    also have "\<dots> \<le> 2 powi (?A - ?B + 1) * of_int b"
      using bit_length_powi(1) [OF b] by (intro mult_left_mono) simp_all
    finally show ?thesis unfolding x using bpos by (simp add: pos_divide_less_eq)
  qed
  have lo: "2 powi (?A - ?B - 1) < x"
  proof -
    have "2 powi (?A - ?B - 1) * of_int b < (2::rat) powi (?A - ?B - 1) * 2 powi ?B"
      using bit_length_powi(2) [OF b] by (intro mult_strict_left_mono) simp_all
    also have "\<dots> = 2 powi (?A - 1)"
      by (simp add: power_int_add [symmetric])
    also have "\<dots> \<le> of_int a" using bit_length_powi(1) [OF a] .
    finally show ?thesis unfolding x using bpos by (simp add: pos_less_divide_eq)
  qed
  show ?thesis
  proof (cases "pow2 (?A - ?B) \<le> x")
    case True
    then have "floor_log2 x = ?A - ?B" by (simp add: floor_log2_def q)
    with True hi show ?thesis by (simp add: pow2_powi)
  next
    case False
    then have "floor_log2 x = ?A - ?B - 1" by (simp add: floor_log2_def q)
    with False lo show ?thesis by (simp add: pow2_powi)
  qed
qed

section \<open>The usage upsert loops\<close>


lemma scan_records_none:
  "\<forall>p\<in>set recs. \<not> (usage_node_id p = node_id node \<and> created_at p = created)
    \<Longrightarrow> scan_records node c created now recs = (False, False, recs)"
  by (induction recs) auto

lemma scan_records_found:
  "fst (scan_records node c created now recs)
     = (\<exists>r\<in>set recs. usage_node_id r = node_id node \<and> created_at r = created)"
  by (induction recs) (auto simp: Let_def split: prod.splits)

lemma scan_records_keys:
  "map (\<lambda>r. (usage_node_id r, created_at r)) (snd (snd (scan_records node c created now recs)))
     = map (\<lambda>r. (usage_node_id r, created_at r)) recs"
  by (induction recs) (auto simp: Let_def split: prod.splits)

lemma scan_records_length:
  "length (snd (snd (scan_records node c created now recs))) = length recs"
  by (induction recs) (auto simp: Let_def split: prod.splits)

lemma scan_records_first:
  assumes "\<forall>p\<in>set pre. \<not> (usage_node_id p = node_id node \<and> created_at p = created)"
    and "usage_node_id r = node_id node" and "created_at r = created"
  shows "scan_records node c created now (pre @ r # post) =
     (if raw_usage r = c \<or> c < raw_usage r then (True, False, pre @ r # post)
      else (True, True,
            pre @ r\<lparr>usage := max 0 (usage r + py_int (float_mul (c - raw_usage r) (rate_or_default node))),
                     raw_usage := c, updated_at := Some now\<rparr> # post))"
  using assms by (induction pre) (auto simp: Let_def max_def)

lemma scan_records_other_node:
  "usage_node_id (recs ! j) \<noteq> node_id node \<Longrightarrow> j < length recs
    \<Longrightarrow> snd (snd (scan_records node c created now recs)) ! j = recs ! j"
proof (induction recs arbitrary: j)
  case Nil then show ?case by simp
next
  case (Cons r rs)
  show ?case
  proof (cases j)
    case 0
    with Cons.prems show ?thesis by (auto simp: Let_def split: prod.splits)
  next
    case (Suc k)
    with Cons show ?thesis by (auto simp: Let_def split: prod.splits)
  qed
qed

lemma bulk_upsert_loop_added:
  "fst (snd (bulk_upsert_loop sid now usages recs added changed)) =
     added @ map (\<lambda>(node, c, t). new_usage_record sid node c t)
       (filter (\<lambda>(node, c, t). 0 < c \<and>
           \<not> (\<exists>r\<in>set recs. usage_node_id r = node_id node \<and> created_at r = t)) usages)"
proof (induction usages arbitrary: recs added changed)
  case Nil then show ?case by simp
next
  case (Cons e es)
  obtain node c t where e: "e = (node, c, t)" by (cases e) auto
  obtain f ch recs' where sc: "scan_records node c t now recs = (f, ch, recs')"
    by (cases "scan_records node c t now recs") auto
  have keys: "map (\<lambda>r. (usage_node_id r, created_at r)) recs'
      = map (\<lambda>r. (usage_node_id r, created_at r)) recs"
    using scan_records_keys [of node c t now recs] sc by simp
  have same: "\<And>n' t'. (\<exists>r\<in>set recs'. usage_node_id r = n' \<and> created_at r = t')
      = (\<exists>r\<in>set recs. usage_node_id r = n' \<and> created_at r = t')"
  proof -
    fix n' t'
    have "(\<exists>r\<in>set recs'. usage_node_id r = n' \<and> created_at r = t')
        = ((n', t') \<in> set (map (\<lambda>r. (usage_node_id r, created_at r)) recs'))"
      by auto
    also have "\<dots> = ((n', t') \<in> set (map (\<lambda>r. (usage_node_id r, created_at r)) recs))"
      by (simp only: keys)
    also have "\<dots> = (\<exists>r\<in>set recs. usage_node_id r = n' \<and> created_at r = t')"
      by auto
    finally show "(\<exists>r\<in>set recs'. usage_node_id r = n' \<and> created_at r = t')
      = (\<exists>r\<in>set recs. usage_node_id r = n' \<and> created_at r = t')" .
  qed
  have f: "f = (\<exists>r\<in>set recs. usage_node_id r = node_id node \<and> created_at r = t)"
    using scan_records_found [of node c t now recs] sc by simp
  show ?case
    using Cons.IH [of recs'] Cons.IH [of recs] by (simp add: e sc f same)
qed


lemma scan_records_key_nth:
  assumes "j < length recs"
  shows "usage_node_id (snd (snd (scan_records node c created now recs)) ! j) = usage_node_id (recs ! j)
       \<and> created_at (snd (snd (scan_records node c created now recs)) ! j) = created_at (recs ! j)"
proof -
  let ?recs' = "snd (snd (scan_records node c created now recs))"
  have "map (\<lambda>r. (usage_node_id r, created_at r)) ?recs' ! j
      = map (\<lambda>r. (usage_node_id r, created_at r)) recs ! j"
    by (simp only: scan_records_keys)
  with assms show ?thesis by (simp add: scan_records_length)
qed

lemma bulk_upsert_loop_length:
  "length (fst (bulk_upsert_loop sid now usages recs added changed)) = length recs"
proof (induction usages arbitrary: recs added changed)
  case Nil then show ?case by simp
next
  case (Cons e es)
  obtain node c t where e: "e = (node, c, t)" by (cases e) auto
  obtain f ch recs' where sc: "scan_records node c t now recs = (f, ch, recs')"
    by (cases "scan_records node c t now recs") auto
  have "length recs' = length recs"
    using scan_records_length [of node c t now recs] sc by simp
  then show ?case using Cons.IH by (simp add: e sc)
qed

lemma bulk_upsert_loop_other_node:
  assumes "\<forall>e\<in>set usages. node_id (fst e) \<noteq> usage_node_id (recs ! j)" and "j < length recs"
  shows "fst (bulk_upsert_loop sid now usages recs added changed) ! j = recs ! j"
  using assms
proof (induction usages arbitrary: recs added changed)
  case Nil then show ?case by simp
next
  case (Cons e es)
  obtain node c t where e: "e = (node, c, t)" by (cases e) auto
  obtain f ch recs' where sc: "scan_records node c t now recs = (f, ch, recs')"
    by (cases "scan_records node c t now recs") auto
  have ne: "usage_node_id (recs ! j) \<noteq> node_id node" using Cons.prems(1) e by auto
  have same: "recs' ! j = recs ! j"
    using scan_records_other_node [OF ne Cons.prems(2), of c t now] sc by simp
  have len: "length recs' = length recs"
    using scan_records_length [of node c t now recs] sc by simp
  have rest: "\<forall>e\<in>set es. node_id (fst e) \<noteq> usage_node_id (recs' ! j)"
    using Cons.prems(1) same by simp
  have rest0: "\<forall>e\<in>set es. node_id (fst e) \<noteq> usage_node_id (recs ! j)"
    using Cons.prems(1) by simp
  show ?case
    using Cons.IH [OF rest, of added "changed \<or> ch"] Cons.IH [OF rest, of "added @ [new_usage_record sid node c t]" True]
      Cons.IH [OF rest0 Cons.prems(2), of added changed] same len Cons.prems(2)
    by (simp add: e sc)
qed

lemma bulk_upsert_loop_credit:
  assumes "distinct (map (\<lambda>e. node_id (fst e)) usages)"
    and "(node, c, t) \<in> set usages" and "0 < c"
    and "i < length recs"
    and "usage_node_id (recs ! i) = node_id node" and "created_at (recs ! i) = t"
    and "\<forall>j<i. \<not> (usage_node_id (recs ! j) = node_id node \<and> created_at (recs ! j) = t)"
    and "raw_usage (recs ! i) < c"
  shows "fst (bulk_upsert_loop sid now usages recs added changed) ! i = credited node c now (recs ! i)"
  using assms
proof (induction usages arbitrary: recs added changed)
  case Nil then show ?case by simp
next
  case (Cons e es)
  obtain node' c' t' where e: "e = (node', c', t')" by (cases e) auto
  obtain f ch recs' where sc: "scan_records node' c' t' now recs = (f, ch, recs')"
    by (cases "scan_records node' c' t' now recs") auto
  have len: "length recs' = length recs"
    using scan_records_length [of node' c' t' now recs] sc by simp
  show ?case
  proof (cases "e = (node, c, t)")
    case True
    then have eq: "node' = node" "c' = c" "t' = t" using e by auto
    let ?pre = "take i recs" and ?post = "drop (Suc i) recs"
    have split: "recs = ?pre @ recs ! i # ?post"
      using Cons.prems(4) by (simp add: id_take_nth_drop)
    have nopre: "\<forall>p\<in>set ?pre. \<not> (usage_node_id p = node_id node \<and> created_at p = t)"
    proof
      fix p assume "p \<in> set ?pre"
      then obtain j where "j < length ?pre" "p = ?pre ! j" by (auto simp: in_set_conv_nth)
      then have "j < i" "p = recs ! j" by auto
      with Cons.prems(7) show "\<not> (usage_node_id p = node_id node \<and> created_at p = t)" by simp
    qed
    have "scan_records node c t now (?pre @ recs ! i # ?post)
        = (True, True, ?pre @ credited node c now (recs ! i) # ?post)"
      using scan_records_first [OF nopre Cons.prems(5) Cons.prems(6), of c now ?post]
        Cons.prems(8) by (simp add: credited_def)
    then have recs': "recs' = ?pre @ credited node c now (recs ! i) # ?post" and f: "f" and ch: "ch"
      using sc split eq by simp_all
    have li: "length ?pre = i" using Cons.prems(4) by simp
    have at: "recs' ! i = credited node c now (recs ! i)"
      using recs' li by (metis nth_append_length)
    have others: "\<forall>e\<in>set es. node_id (fst e) \<noteq> usage_node_id (recs' ! i)"
    proof
      fix x assume x: "x \<in> set es"
      have "node_id (fst e) \<notin> (\<lambda>e. node_id (fst e)) ` set es" using Cons.prems(1) by simp
      then have "node_id (fst x) \<noteq> node_id (fst e)" using x by (metis imageI)
      then show "node_id (fst x) \<noteq> usage_node_id (recs' ! i)"
        using at Cons.prems(5) True by (simp add: credited_def)
    qed
    have "fst (bulk_upsert_loop sid now es recs' added (changed \<or> ch)) ! i = recs' ! i"
      using bulk_upsert_loop_other_node [OF others] len Cons.prems(4) by simp
    then show ?thesis using at Cons.prems(3) f sc by (simp add: e eq)
  next
    case False
    then have mem: "(node, c, t) \<in> set es" using Cons.prems(2) by simp
    have dist: "distinct (map (\<lambda>e. node_id (fst e)) es)" using Cons.prems(1) by simp
    have ne: "node_id node' \<noteq> node_id node"
    proof -
      have "node_id (fst e) \<notin> (\<lambda>e. node_id (fst e)) ` set es" using Cons.prems(1) by simp
      moreover have "node_id (fst (node, c, t)) \<in> (\<lambda>e. node_id (fst e)) ` set es"
        using mem by (rule imageI)
      ultimately have "node_id (fst e) \<noteq> node_id (fst (node, c, t))" by metis
      then show ?thesis using e by simp
    qed
    have keys: "\<And>j. j < length recs \<Longrightarrow> usage_node_id (recs' ! j) = usage_node_id (recs ! j)
        \<and> created_at (recs' ! j) = created_at (recs ! j)"
      using scan_records_key_nth [of _ recs node' c' t' now] sc by simp
    have same: "recs' ! i = recs ! i"
      using scan_records_other_node [of recs i node' c' t' now] sc Cons.prems(4,5) ne by simp
    have p4: "i < length recs'" using len Cons.prems(4) by simp
    have p5: "usage_node_id (recs' ! i) = node_id node" using same Cons.prems(5) by simp
    have p6: "created_at (recs' ! i) = t" using same Cons.prems(6) by simp
    have p7: "\<forall>j<i. \<not> (usage_node_id (recs' ! j) = node_id node \<and> created_at (recs' ! j) = t)"
      using keys Cons.prems(4,7) by auto
    have p8: "raw_usage (recs' ! i) < c" using same Cons.prems(8) by simp
    have A: "\<And>a ch. fst (bulk_upsert_loop sid now es recs' a ch) ! i = credited node c now (recs ! i)"
      using Cons.IH [OF dist mem Cons.prems(3) p4 p5 p6 p7 p8] same by simp
    have B: "\<And>a ch. fst (bulk_upsert_loop sid now es recs a ch) ! i = credited node c now (recs ! i)"
      using Cons.IH [OF dist mem Cons.prems(3-8)] by simp
    show ?thesis by (simp add: e sc A B)
  qed
qed


lemma scan_records_changed:
  "scan_records node c created now recs = (f, ch, recs')
    \<Longrightarrow> (\<not> ch \<longrightarrow> recs' = recs) \<and> (ch \<longrightarrow> raw_total recs < raw_total recs')"
  by (induction recs arbitrary: f ch recs')
     (auto simp: Let_def raw_total_def split: prod.splits if_splits)

lemma scan_records_raw_total:
  "raw_total recs \<le> raw_total (snd (snd (scan_records node c created now recs)))"
  by (induction recs) (auto simp: Let_def raw_total_def split: prod.splits)

lemma bulk_upsert_loop_flag:
  "changed \<Longrightarrow> snd (snd (bulk_upsert_loop sid now usages recs added changed))"
proof (induction usages arbitrary: recs added changed)
  case Nil then show ?case by simp
next
  case (Cons e es)
  obtain node c t where e: "e = (node, c, t)" by (cases e) auto
  show ?case using Cons by (simp add: e split: prod.splits)
qed

lemma bulk_upsert_loop_unchanged:
  "\<not> snd (snd (bulk_upsert_loop sid now usages recs added changed))
    \<Longrightarrow> fst (bulk_upsert_loop sid now usages recs added changed) = recs
      \<and> fst (snd (bulk_upsert_loop sid now usages recs added changed)) = added"
proof (induction usages arbitrary: recs added changed)
  case Nil then show ?case by simp
next
  case (Cons e es)
  obtain node c t where e: "e = (node, c, t)" by (cases e) auto
  obtain f ch recs' where sc: "scan_records node c t now recs = (f, ch, recs')"
    by (cases "scan_records node c t now recs") auto
  note chg = scan_records_changed [OF sc]
  show ?case
  proof (cases "c \<le> 0")
    case True
    with Cons show ?thesis by (simp add: e)
  next
    case pos: False
    show ?thesis
    proof (cases f)
      case False
      have "snd (snd (bulk_upsert_loop sid now es recs' (added @ [new_usage_record sid node c t]) True))"
        by (rule bulk_upsert_loop_flag) simp
      with Cons.prems pos False show ?thesis by (simp add: e sc)
    next
      case True
      have nf: "\<not> snd (snd (bulk_upsert_loop sid now es recs' added (changed \<or> ch)))"
        using Cons.prems pos True by (simp add: e sc)
      have "\<not> (changed \<or> ch)"
        using nf bulk_upsert_loop_flag [of "changed \<or> ch" sid now es recs' added] by metis
      then have "recs' = recs" using chg by simp
      with Cons.IH [OF nf] pos True show ?thesis by (simp add: e sc)
    qed
  qed
qed

lemma bulk_upsert_loop_grows:
  "raw_total recs \<le> raw_total (fst (bulk_upsert_loop sid now usages recs added changed))
   \<and> length added \<le> length (fst (snd (bulk_upsert_loop sid now usages recs added changed)))
   \<and> (snd (snd (bulk_upsert_loop sid now usages recs added changed)) \<longrightarrow>
        changed \<or> raw_total recs < raw_total (fst (bulk_upsert_loop sid now usages recs added changed))
        \<or> length added < length (fst (snd (bulk_upsert_loop sid now usages recs added changed))))"
proof (induction usages arbitrary: recs added changed)
  case Nil then show ?case by simp
next
  case (Cons e es)
  obtain node c t where e: "e = (node, c, t)" by (cases e) auto
  obtain f ch recs' where sc: "scan_records node c t now recs = (f, ch, recs')"
    by (cases "scan_records node c t now recs") auto
  note chg = scan_records_changed [OF sc]
  have mono: "raw_total recs \<le> raw_total recs'"
    using scan_records_raw_total [of recs node c t now] sc by simp
  show ?case
  proof (cases "c \<le> 0")
    case True
    with Cons.IH [of recs added changed] show ?thesis by (simp add: e)
  next
    case pos: False
    show ?thesis
    proof (cases f)
      case False
      with Cons.IH [of recs' "added @ [new_usage_record sid node c t]" True] pos mono
      show ?thesis by (simp add: e sc)
    next
      case True
      with Cons.IH [of recs' added "changed \<or> ch"] pos mono chg
      show ?thesis by (auto simp: e sc)
    qed
  qed
qed

lemma bulk_upsert_loop_changed_iff:
  "snd (snd (bulk_upsert_loop sid now usages recs [] False))
    = (fst (bulk_upsert_loop sid now usages recs [] False) \<noteq> recs
       \<or> fst (snd (bulk_upsert_loop sid now usages recs [] False)) \<noteq> [])"
proof -
  let ?L = "bulk_upsert_loop sid now usages recs [] False"
  show ?thesis
  proof (cases "snd (snd ?L)")
    case True
    have "raw_total recs < raw_total (fst ?L) \<or> 0 < length (fst (snd ?L))"
      using bulk_upsert_loop_grows [of recs sid now usages "[]" False] True by simp
    then have "fst ?L \<noteq> recs \<or> fst (snd ?L) \<noteq> []" by auto
    with True show ?thesis by simp
  next
    case False
    with bulk_upsert_loop_unchanged [OF False] show ?thesis by simp
  qed
qed

lemma find_first_split:
  "\<forall>p\<in>set pre. \<not> P p \<Longrightarrow> P r \<Longrightarrow> find P (pre @ r # post) = Some r"
  by (induction pre) auto

lemma replace_first_split:
  "\<forall>p\<in>set pre. \<not> P p \<Longrightarrow> P r \<Longrightarrow> replace_first P y (pre @ r # post) = pre @ y # post"
  by (induction pre) auto

lemma find_none_iff: "(find P xs = None) = (\<forall>x\<in>set xs. \<not> P x)"
  by (induction xs) auto

section \<open>Usage accounting: claims C1, C2, C4, C5, C6\<close>


lemma bulk_upsert_usages_fields:
  "res_records (bulk_upsert_usages now sub usages recs)
     = fst (bulk_upsert_loop (sub_id sub) now usages recs [] False)"
  "res_added (bulk_upsert_usages now sub usages recs)
     = fst (snd (bulk_upsert_loop (sub_id sub) now usages recs [] False))"
  "res_sub (bulk_upsert_usages now sub usages recs)
     = (if snd (snd (bulk_upsert_loop (sub_id sub) now usages recs [] False))
        then fst (activate_expire now sub) else sub)"
  "res_notifications (bulk_upsert_usages now sub usages recs)
     = (if snd (snd (bulk_upsert_loop (sub_id sub) now usages recs [] False))
        then snd (activate_expire now sub) else [])"
  by (cases "bulk_upsert_loop (sub_id sub) now usages recs [] False";
      cases "activate_expire now sub"; simp add: bulk_upsert_usages_def)+

lemma upsert_usage_counter_reset:
  assumes "0 < c" and "\<forall>p\<in>set pre. \<not> usage_key (sub_id sub) node t p"
    and "usage_key (sub_id sub) node t r" and "c < raw_usage r"
  shows "res_records (upsert_usage now sub node c t (pre @ r # post))
       = pre @ r\<lparr>raw_usage := c, updated_at := Some now\<rparr> # post"
  using assms
  by (simp add: upsert_usage_def find_first_split replace_first_split Let_def
      split: prod.splits)

lemma bulk_upsert_usages_counter_drop_ignored:
  assumes "\<forall>p\<in>set pre. \<not> (usage_node_id p = node_id node \<and> created_at p = t)"
    and "usage_node_id r = node_id node" and "created_at r = t" and "c < raw_usage r"
  shows "res_records (bulk_upsert_usages now sub [(node, c, t)] (pre @ r # post)) = pre @ r # post"
  using assms scan_records_first [OF assms(1-3), of c now post]
  by (simp add: bulk_upsert_usages_def split: prod.splits)

text \<open>
  Claim C1. On a counter lower than the stored one the usage is not credited and the
  stored counter is lowered, with \<open>updated_at\<close> set, on both paths. The single-row path
  does so (\<open>upsert_usage_counter_reset\<close>); the batch path leaves the row as it is
  (\<open>bulk_upsert_usages_counter_drop_ignored\<close>). Evaluated on the specification's
  scenario S1, tick 3: stored counter 1000, usage 500, new counter 800.
\<close>

theorem bulk_upsert_usages_keeps_higher_counter:
  "res_records (bulk_upsert_usages 5000 (sub_X 0) [(node_N (Some (1 / 2)), 800, 3600)]
      [usage_row 500 1000]) = [usage_row 500 1000]
   \<and> res_records (upsert_usage 5000 (sub_X 0) (node_N (Some (1 / 2))) 800 3600
      [usage_row 500 1000]) = [(usage_row 500 1000)\<lparr>raw_usage := 800, updated_at := Some 5000\<rparr>]"
  by (simp add: bulk_upsert_usages_def upsert_usage_def usage_key_def activate_expire_def
      node_N_def sub_X_def usage_row_def)

text \<open>
  Claim C6, as amended. A subscription is expired iff \<open>limit_expire\<close> is positive and
  strictly below the clock: at the instant \<open>now = limit_expire\<close> it is not yet expired.
  The in-memory predicate, its SQL expression and the tracker's expression agree, and
  \<open>limit_expire = 0\<close> never expires.
\<close>

theorem expired_is_strict:
  "expired now sub = (limit_expire sub > 0 \<and> now > limit_expire sub)
   \<and> expired_expression now sub = expired now sub
   \<and> expired_expr now sub = expired now sub
   \<and> \<not> expired now (sub\<lparr>limit_expire := 0\<rparr>)"
  by (auto simp: expired_def expired_expression_def expired_expr_def)

text \<open>
  Claim C6 as stated (expired iff \<open>limit_expire > 0\<close> and \<open>now \<ge> limit_expire\<close>) fails at
  \<open>now = limit_expire = 1000\<close>.
\<close>

theorem expired_at_exact_instant_counterexample:
  "\<not> (expired 1000 (sub_X 1000) = (limit_expire (sub_X 1000) > 0 \<and> 1000 \<ge> limit_expire (sub_X 1000)))
   \<and> \<not> expired 1000 (sub_X 1000) \<and> \<not> expired_expr 1000 (sub_X 1000)"
  by (simp add: expired_def expired_expr_def sub_X_def)

text \<open>
  Claim C5, as amended. The batch path inserts exactly one row for every entry with a
  positive counter whose node and hour bucket match no existing row, in the order of the
  entries; the row holds the counter and \<open>int(counter * rate)\<close>: the double-precision
  product of the counter and the effective rate (\<open>usage_rate\<close>, or 1.0 when it is unset
  or zero), truncated toward zero. An entry with a counter of zero or less inserts nothing.
\<close>

theorem bulk_upsert_usages_inserts:
  "res_added (bulk_upsert_usages now sub usages sub_usages) =
     map (\<lambda>(node, c, t). new_usage_record (sub_id sub) node c t)
       (filter (\<lambda>(node, c, t). 0 < c \<and>
           \<not> (\<exists>r\<in>set sub_usages. usage_node_id r = node_id node \<and> created_at r = t)) usages)
   \<and> usage (new_usage_record (sub_id sub) node c t) = py_int (float_mul c (rate_or_default node))
   \<and> raw_usage (new_usage_record (sub_id sub) node c t) = c
   \<and> created_at (new_usage_record (sub_id sub) node c t) = t"
  by (simp add: bulk_upsert_usages_fields bulk_upsert_loop_added new_usage_record_def)

text \<open>
  Claim C5 as stated fails in three ways. For the counter 0 (and for a negative counter) no
  row is inserted at all: the entry is skipped. At rate 0.75 and counter 1 the inserted
  row has \<open>usage = 0\<close>, while \<open>round(1 \<times> 0.75)\<close> is 1, whether the product is exact or
  the double-precision one. At rate 0 and counter 5 the inserted row has \<open>usage = 5\<close>,
  the rate counting as 1.0, while \<open>round(5 \<times> 0)\<close> is 0; an unset rate counts as 1.0 too.
\<close>

theorem zero_counter_inserts_nothing_counterexample:
  "res_added (bulk_upsert_usages 5000 (sub_X 0) [(node_N (Some (1 / 2)), 0, 3600)] []) = []
   \<and> res_added (bulk_upsert_usages 5000 (sub_X 0) [(node_N (Some (1 / 2)), - 1, 3600)] []) = []
   \<and> map usage (res_added (bulk_upsert_usages 5000 (sub_X 0) [(node_N (Some (3 / 4)), 1, 3600)] []))
        = [0]
   \<and> py_round (of_int 1 * (3 / 4)) = 1
   \<and> py_round (float_mul 1 (3 / 4)) = 1
   \<and> map usage (res_added (bulk_upsert_usages 5000 (sub_X 0) [(node_N (Some 0), 5, 3600)] []))
        = [5]
   \<and> py_round (of_int 5 * 0) = 0
   \<and> py_round (float_mul 5 0) = 0
   \<and> map usage (res_added (bulk_upsert_usages 5000 (sub_X 0) [(node_N None, 5, 3600)] []))
        = [5]"
  by code_simp

text \<open>
  The product is the double-precision one: at rate 0.3 (the double nearest to 3/10, which
  lies above it) and counter 10 the inserted usage is 3, as \<open>int(10 * 0.3)\<close> is in Python;
  the exact product of the two numbers truncates to 2.
\<close>

lemma new_usage_record_three_tenths:
  "usage (new_usage_record 1 (node_N (Some (5404319552844595 / 18014398509481984))) 10 3600) = 3
   \<and> py_int (of_int 10 * (5404319552844595 / 18014398509481984)) = 2"
  by code_simp

text \<open>
  Claim C2 as stated fails in two ways, on both paths. At rate 0.75 and delta 1 the bytes
  added to \<open>usage\<close> are 0, while \<open>round(1 \<times> 0.75)\<close> is 1, whether the product is exact
  or the double-precision one. At rate 0 and delta 5 the bytes added are 5, the rate
  counting as 1.0, while \<open>round(5 \<times> 0)\<close> is 0; an unset rate counts as 1.0 too.
\<close>

theorem credit_rounding_counterexample:
  "usage (res_records (bulk_upsert_usages 5000 (sub_X 0) [(node_N (Some (3 / 4)), 11, 3600)]
            [usage_row 100 10]) ! 0) - usage (usage_row 100 10) = 0
   \<and> usage (res_records (upsert_usage 5000 (sub_X 0) (node_N (Some (3 / 4))) 11 3600
            [usage_row 100 10]) ! 0) - usage (usage_row 100 10) = 0
   \<and> py_round (of_int (11 - raw_usage (usage_row 100 10)) * (3 / 4)) = 1
   \<and> py_round (float_mul (11 - raw_usage (usage_row 100 10)) (3 / 4)) = 1
   \<and> usage (res_records (bulk_upsert_usages 5000 (sub_X 0) [(node_N (Some 0), 15, 3600)]
            [usage_row 100 10]) ! 0) - usage (usage_row 100 10) = 5
   \<and> usage (res_records (upsert_usage 5000 (sub_X 0) (node_N (Some 0)) 15 3600
            [usage_row 100 10]) ! 0) - usage (usage_row 100 10) = 5
   \<and> py_round (of_int (15 - raw_usage (usage_row 100 10)) * 0) = 0
   \<and> py_round (float_mul (15 - raw_usage (usage_row 100 10)) 0) = 0
   \<and> usage (res_records (bulk_upsert_usages 5000 (sub_X 0) [(node_N None, 15, 3600)]
            [usage_row 100 10]) ! 0) - usage (usage_row 100 10) = 5
   \<and> usage (res_records (upsert_usage 5000 (sub_X 0) (node_N None) 15 3600
            [usage_row 100 10]) ! 0) - usage (usage_row 100 10) = 5"
  by code_simp


lemma upsert_usage_credit:
  assumes "0 < c" and "\<forall>p\<in>set pre. \<not> usage_key (sub_id sub) node t p"
    and "usage_key (sub_id sub) node t r" and "raw_usage r < c"
  shows "res_records (upsert_usage now sub node c t (pre @ r # post))
       = pre @ credited node c now r # post"
  using assms
  by (simp add: upsert_usage_def find_first_split replace_first_split Let_def credited_def
      max_def split: prod.splits)

text \<open>
  Claim C2, as amended. For a positive delta on an existing row (the first row of the
  node and hour bucket), both paths add \<open>int(delta * rate)\<close>: the double-precision
  product of the delta and the effective rate, truncated toward zero (the effective rate
  is \<open>usage_rate\<close>, or 1.0 when it is unset or zero); they clamp \<open>usage\<close> at zero from
  below, store the counter and set \<open>updated_at\<close>.
\<close>

theorem credit_truncates_rate_product:
  assumes "distinct (map (\<lambda>e. node_id (fst e)) usages)"
    and "(node, c, t) \<in> set usages" and "0 < c"
    and "\<forall>r\<in>set sub_usages. subscription_id r = sub_id sub"
    and "i < length sub_usages"
    and "usage_node_id (sub_usages ! i) = node_id node" and "created_at (sub_usages ! i) = t"
    and "\<forall>j<i. \<not> (usage_node_id (sub_usages ! j) = node_id node \<and> created_at (sub_usages ! j) = t)"
    and "raw_usage (sub_usages ! i) < c"
  shows "res_records (bulk_upsert_usages now sub usages sub_usages) ! i
           = credited node c now (sub_usages ! i)
       \<and> res_records (upsert_usage now sub node c t sub_usages) ! i
           = credited node c now (sub_usages ! i)
       \<and> usage (credited node c now (sub_usages ! i))
           = max 0 (usage (sub_usages ! i)
               + py_int (float_mul (c - raw_usage (sub_usages ! i)) (rate_or_default node)))
       \<and> 0 \<le> usage (credited node c now (sub_usages ! i))
       \<and> raw_usage (credited node c now (sub_usages ! i)) = c
       \<and> updated_at (credited node c now (sub_usages ! i)) = Some now"
proof -
  let ?pre = "take i sub_usages" and ?post = "drop (Suc i) sub_usages" and ?r = "sub_usages ! i"
  have bulk: "res_records (bulk_upsert_usages now sub usages sub_usages) ! i = credited node c now ?r"
    using bulk_upsert_loop_credit [OF assms(1-3) assms(5-9)]
    by (simp add: bulk_upsert_usages_fields)
  have split: "sub_usages = ?pre @ ?r # ?post"
    using assms(5) by (simp add: id_take_nth_drop)
  have key: "usage_key (sub_id sub) node t ?r"
    using assms(4-7) by (simp add: usage_key_def)
  have nopre: "\<forall>p\<in>set ?pre. \<not> usage_key (sub_id sub) node t p"
  proof
    fix p assume "p \<in> set ?pre"
    then obtain j where "j < length ?pre" "p = ?pre ! j" by (auto simp: in_set_conv_nth)
    then have "j < i" "p = sub_usages ! j" by auto
    with assms(8) show "\<not> usage_key (sub_id sub) node t p" by (simp add: usage_key_def)
  qed
  have "res_records (upsert_usage now sub node c t (?pre @ ?r # ?post))
      = ?pre @ credited node c now ?r # ?post"
    by (rule upsert_usage_credit [OF assms(3) nopre key assms(9)])
  then have "res_records (upsert_usage now sub node c t sub_usages)
      = ?pre @ credited node c now ?r # ?post"
    using split by simp
  moreover have "length ?pre = i" using assms(5) by simp
  ultimately have single: "res_records (upsert_usage now sub node c t sub_usages) ! i
      = credited node c now ?r"
    by (metis nth_append_length)
  show ?thesis using bulk single by (simp add: credited_def)
qed

text \<open>
  Witness for C2: rate 0.3 (the double nearest to 3/10), stored counter 10, new counter 20:
  the usage 100 becomes 103, as \<open>int(10 * 0.3)\<close> is 3 in Python.
\<close>

theorem credit_truncates_rate_product_witness:
  "res_records (bulk_upsert_usages 5000 (sub_X 0)
      [(node_N (Some (5404319552844595 / 18014398509481984)), 20, 3600)] [usage_row 100 10]) ! 0
     = (usage_row 100 10)\<lparr>usage := 103, raw_usage := 20, updated_at := Some 5000\<rparr>
   \<and> res_records (upsert_usage 5000 (sub_X 0)
      (node_N (Some (5404319552844595 / 18014398509481984))) 20 3600 [usage_row 100 10]) ! 0
     = (usage_row 100 10)\<lparr>usage := 103, raw_usage := 20, updated_at := Some 5000\<rparr>"
proof -
  let ?n = "node_N (Some (5404319552844595 / 18014398509481984))"
  have c: "credited ?n 20 5000 (usage_row 100 10)
      = (usage_row 100 10)\<lparr>usage := 103, raw_usage := 20, updated_at := Some 5000\<rparr>"
    by code_simp
  have h1: "distinct (map (\<lambda>e. node_id (fst e)) [(?n, 20 :: int, 3600 :: int)])"
    by simp
  have h2: "(?n, 20, 3600) \<in> set [(?n, 20 :: int, 3600 :: int)]"
    by simp
  have h4: "\<forall>r\<in>set [usage_row 100 10]. subscription_id r = sub_id (sub_X 0)"
    by (simp add: usage_row_def sub_X_def)
  have h6: "usage_node_id ([usage_row 100 10] ! 0) = node_id ?n"
    by (simp add: usage_row_def node_N_def)
  have h7: "created_at ([usage_row 100 10] ! 0) = 3600" by (simp add: usage_row_def)
  have h8: "\<forall>j<0. \<not> (usage_node_id ([usage_row 100 10] ! j) = node_id ?n
      \<and> created_at ([usage_row 100 10] ! j) = 3600)" by simp
  have h9: "raw_usage ([usage_row 100 10] ! 0) < 20" by (simp add: usage_row_def)
  show ?thesis
    using credit_truncates_rate_product [OF h1 h2 _ h4 _ h6 h7 h8 h9, of 5000] c by simp
qed


lemma activate_expire_pending:
  "limit_expire sub < 0 \<Longrightarrow>
     activate_expire now sub
       = (sub\<lparr>limit_expire := now + \<bar>limit_expire sub\<bar>\<rparr>, [ActivatedExpire (sub_id sub)])"
  by (simp add: activate_expire_def)

lemma activate_expire_settled:
  "0 \<le> limit_expire sub \<Longrightarrow> activate_expire now sub = (sub, [])"
  by (simp add: activate_expire_def)

lemma replace_first_differs:
  "find P rows = Some x \<Longrightarrow> y \<noteq> x \<Longrightarrow> replace_first P y rows \<noteq> rows"
  by (induction rows) (auto split: if_splits)

lemma bulk_upsert_usages_changed_iff:
  "snd (snd (bulk_upsert_loop (sub_id sub) now usages recs [] False))
     = (res_records (bulk_upsert_usages now sub usages recs) \<noteq> recs
        \<or> res_added (bulk_upsert_usages now sub usages recs) \<noteq> [])"
  using bulk_upsert_loop_changed_iff [of "sub_id sub" now usages recs]
  by (simp add: bulk_upsert_usages_fields)

lemma bulk_upsert_usages_activation:
  assumes "limit_expire sub < 0"
  shows "(if res_records (bulk_upsert_usages now sub usages recs) \<noteq> recs
             \<or> res_added (bulk_upsert_usages now sub usages recs) \<noteq> []
          then res_sub (bulk_upsert_usages now sub usages recs)
                 = sub\<lparr>limit_expire := now + \<bar>limit_expire sub\<bar>\<rparr>
               \<and> res_notifications (bulk_upsert_usages now sub usages recs)
                 = [ActivatedExpire (sub_id sub)]
          else res_sub (bulk_upsert_usages now sub usages recs) = sub
               \<and> res_notifications (bulk_upsert_usages now sub usages recs) = [])"
  using assms bulk_upsert_usages_changed_iff [of sub now usages recs]
  by (simp add: bulk_upsert_usages_fields(3,4) activate_expire_pending)

lemma bulk_upsert_usages_settled:
  assumes "0 \<le> limit_expire sub"
  shows "res_sub (bulk_upsert_usages now sub usages recs) = sub
       \<and> res_notifications (bulk_upsert_usages now sub usages recs) = []"
  using assms by (simp add: bulk_upsert_usages_fields(3,4) activate_expire_settled)

lemma upsert_usage_activation:
  assumes "limit_expire sub < 0"
  shows "(if res_records (upsert_usage now sub node c t rows) \<noteq> rows
             \<or> res_added (upsert_usage now sub node c t rows) \<noteq> []
          then res_sub (upsert_usage now sub node c t rows)
                 = sub\<lparr>limit_expire := now + \<bar>limit_expire sub\<bar>\<rparr>
               \<and> res_notifications (upsert_usage now sub node c t rows)
                 = [ActivatedExpire (sub_id sub)]
          else res_sub (upsert_usage now sub node c t rows) = sub
               \<and> res_notifications (upsert_usage now sub node c t rows) = [])"
proof -
  let ?sub' = "sub\<lparr>limit_expire := now + \<bar>limit_expire sub\<bar>\<rparr>"
  let ?key = "usage_key (sub_id sub) node t"
  have act: "activate_expire now sub = (?sub', [ActivatedExpire (sub_id sub)])"
    by (rule activate_expire_pending [OF assms])
  have idle: "upsert_usage now sub node c t rows
        = \<lparr>res_sub = sub, res_records = rows, res_added = [], res_notifications = []\<rparr>
      \<Longrightarrow> ?thesis"
    by simp
  show ?thesis
  proof (cases "c \<le> 0")
    case True
    then show ?thesis by (intro idle) (simp add: upsert_usage_def)
  next
    case pos: False
    show ?thesis
    proof (cases "find ?key rows")
      case None
      have "upsert_usage now sub node c t rows
          = \<lparr>res_sub = ?sub', res_records = rows,
             res_added = [new_usage_record (sub_id sub) node c t],
             res_notifications = [ActivatedExpire (sub_id sub)]\<rparr>"
        using pos None by (simp add: upsert_usage_def act)
      then show ?thesis by simp
    next
      case (Some existing)
      show ?thesis
      proof (cases "raw_usage existing = c")
        case True
        show ?thesis using pos Some True by (intro idle) (simp add: upsert_usage_def)
      next
        case False
        obtain e where e: "raw_usage e = c"
          and eq: "upsert_usage now sub node c t rows
            = \<lparr>res_sub = ?sub', res_records = replace_first ?key e rows,
               res_added = [], res_notifications = [ActivatedExpire (sub_id sub)]\<rparr>"
        proof (cases "c - raw_usage existing < 0")
          case True
          have "upsert_usage now sub node c t rows
            = \<lparr>res_sub = ?sub',
               res_records = replace_first ?key
                 (existing\<lparr>raw_usage := c, updated_at := Some now\<rparr>) rows,
               res_added = [], res_notifications = [ActivatedExpire (sub_id sub)]\<rparr>"
            using pos Some False True by (simp add: upsert_usage_def act Let_def)
          then show ?thesis using that [of "existing\<lparr>raw_usage := c, updated_at := Some now\<rparr>"]
            by simp
        next
          case nonneg: False
          have "upsert_usage now sub node c t rows
            = \<lparr>res_sub = ?sub',
               res_records = replace_first ?key (credited node c now existing) rows,
               res_added = [], res_notifications = [ActivatedExpire (sub_id sub)]\<rparr>"
            using pos Some False nonneg
            by (simp add: upsert_usage_def act Let_def credited_def max_def)
          then show ?thesis using that [of "credited node c now existing"]
            by (simp add: credited_def)
        qed
        have "e \<noteq> existing" using e False by metis
        then have "replace_first ?key e rows \<noteq> rows"
          by (rule replace_first_differs [OF Some])
        then show ?thesis by (simp add: eq)
      qed
    qed
  qed
qed

lemma upsert_usage_settled:
  assumes "0 \<le> limit_expire sub"
  shows "res_sub (upsert_usage now sub node c t rows) = sub
       \<and> res_notifications (upsert_usage now sub node c t rows) = []"
  using assms
  by (simp add: upsert_usage_def activate_expire_settled Let_def split: option.splits)

lemma usage_ticks_settled:
  "0 \<le> limit_expire sub \<Longrightarrow>
     fst (usage_ticks ticks sub rows) = sub \<and> snd (snd (usage_ticks ticks sub rows)) = []"
proof (induction ticks arbitrary: rows)
  case Nil then show ?case by simp
next
  case (Cons tk ticks)
  obtain now usages where tk: "tk = (now, usages)" by (cases tk) auto
  show ?case
    using Cons bulk_upsert_usages_settled [of sub now usages rows]
    by (simp add: tk Let_def split: prod.splits)
qed

lemma usage_ticks_pending:
  assumes "limit_expire sub < 0" and "\<forall>tk\<in>set ticks. 0 \<le> fst tk"
  shows "(fst (usage_ticks ticks sub rows) = sub
            \<and> fst (snd (usage_ticks ticks sub rows)) = rows
            \<and> snd (snd (usage_ticks ticks sub rows)) = [])
       \<or> (0 < limit_expire (fst (usage_ticks ticks sub rows))
            \<and> snd (snd (usage_ticks ticks sub rows)) = [ActivatedExpire (sub_id sub)])"
  using assms
proof (induction ticks arbitrary: rows)
  case Nil then show ?case by simp
next
  case (Cons tk ticks)
  obtain now usages where tk: "tk = (now, usages)" by (cases tk) auto
  let ?res = "bulk_upsert_usages now sub usages rows"
  have now: "0 \<le> now" using Cons.prems(2) tk by simp
  have rest: "\<forall>tk\<in>set ticks. 0 \<le> fst tk" using Cons.prems(2) by simp
  show ?case
  proof (cases "res_records ?res \<noteq> rows \<or> res_added ?res \<noteq> []")
    case True
    then have sub': "res_sub ?res = sub\<lparr>limit_expire := now + \<bar>limit_expire sub\<bar>\<rparr>"
      and ns: "res_notifications ?res = [ActivatedExpire (sub_id sub)]"
      using bulk_upsert_usages_activation [OF Cons.prems(1), of now usages rows] by simp_all
    have pos: "0 < limit_expire (res_sub ?res)" using sub' now Cons.prems(1) by simp
    then have "0 \<le> limit_expire (res_sub ?res)" by simp
    note st = usage_ticks_settled [OF this, of ticks "res_records ?res @ res_added ?res"]
    show ?thesis using st pos ns by (simp add: tk Let_def split_beta)
  next
    case False
    then have same: "res_sub ?res = sub" "res_notifications ?res = []"
      "res_records ?res = rows" "res_added ?res = []"
      using bulk_upsert_usages_activation [OF Cons.prems(1), of now usages rows] by simp_all
    show ?thesis
      using Cons.IH [OF Cons.prems(1) rest, of rows] same
      by (simp add: tk Let_def split_beta)
  qed
qed


text \<open>
  Claim C4. A pending subscription (\<open>limit_expire < 0\<close>) keeps its value through every
  upsert that changes or adds no usage row; the first upsert that does replaces it by
  \<open>now + |limit_expire|\<close>, which is positive, and emits one ActivatedExpire notification.
  From then on every tick leaves the subscription as it is and emits nothing, so over any
  run of ticks the notification is emitted at most once.
\<close>

theorem pending_expire_activated_once:
  assumes "limit_expire sub < 0" and "0 \<le> now" and "\<forall>tk\<in>set ticks. 0 \<le> fst tk"
  shows "(if res_records (bulk_upsert_usages now sub usages rows) \<noteq> rows
             \<or> res_added (bulk_upsert_usages now sub usages rows) \<noteq> []
          then res_sub (bulk_upsert_usages now sub usages rows)
                 = sub\<lparr>limit_expire := now + \<bar>limit_expire sub\<bar>\<rparr>
               \<and> res_notifications (bulk_upsert_usages now sub usages rows)
                 = [ActivatedExpire (sub_id sub)]
          else res_sub (bulk_upsert_usages now sub usages rows) = sub
               \<and> res_notifications (bulk_upsert_usages now sub usages rows) = [])
       \<and> (if res_records (upsert_usage now sub node c t rows) \<noteq> rows
             \<or> res_added (upsert_usage now sub node c t rows) \<noteq> []
          then res_sub (upsert_usage now sub node c t rows)
                 = sub\<lparr>limit_expire := now + \<bar>limit_expire sub\<bar>\<rparr>
               \<and> res_notifications (upsert_usage now sub node c t rows)
                 = [ActivatedExpire (sub_id sub)]
          else res_sub (upsert_usage now sub node c t rows) = sub
               \<and> res_notifications (upsert_usage now sub node c t rows) = [])
       \<and> 0 < now + \<bar>limit_expire sub\<bar>
       \<and> fst (usage_ticks ticks (sub\<lparr>limit_expire := now + \<bar>limit_expire sub\<bar>\<rparr>) rows)
           = sub\<lparr>limit_expire := now + \<bar>limit_expire sub\<bar>\<rparr>
       \<and> snd (snd (usage_ticks ticks (sub\<lparr>limit_expire := now + \<bar>limit_expire sub\<bar>\<rparr>) rows)) = []
       \<and> ((fst (usage_ticks ticks sub rows) = sub
             \<and> fst (snd (usage_ticks ticks sub rows)) = rows
             \<and> snd (snd (usage_ticks ticks sub rows)) = [])
          \<or> (0 < limit_expire (fst (usage_ticks ticks sub rows))
             \<and> snd (snd (usage_ticks ticks sub rows)) = [ActivatedExpire (sub_id sub)]))"
proof -
  let ?sub' = "sub\<lparr>limit_expire := now + \<bar>limit_expire sub\<bar>\<rparr>"
  have pos: "0 < now + \<bar>limit_expire sub\<bar>" using assms(1,2) by simp
  then have "0 \<le> limit_expire ?sub'" by simp
  note settled = usage_ticks_settled [OF this, of ticks rows]
  show ?thesis
    using bulk_upsert_usages_activation [OF assms(1), of now usages rows]
      upsert_usage_activation [OF assms(1), of now node c t rows]
      pos settled usage_ticks_pending [OF assms(1,3), of rows]
    by simp
qed

text \<open>Witness for C4: scenario S3, a pending duration of 86400 activated at 5000.\<close>

theorem pending_expire_activated_once_witness:
  "res_sub (bulk_upsert_usages 5000 (sub_X (- 86400)) [(node_N (Some (1 / 2)), 1000, 3600)] [])
     = sub_X 91400
   \<and> res_notifications
       (bulk_upsert_usages 5000 (sub_X (- 86400)) [(node_N (Some (1 / 2)), 1000, 3600)] [])
     = [ActivatedExpire 7]
   \<and> res_sub (bulk_upsert_usages 5000 (sub_X (- 86400)) [(node_N (Some (1 / 2)), 0, 3600)] [])
     = sub_X (- 86400)
   \<and> fst (usage_ticks [(5000, [(node_N (Some (1 / 2)), 1000, 3600)]),
                        (8600, [(node_N (Some (1 / 2)), 1200, 3600)])] (sub_X (- 86400)) [])
     = sub_X 91400
   \<and> snd (snd (usage_ticks [(5000, [(node_N (Some (1 / 2)), 1000, 3600)]),
                        (8600, [(node_N (Some (1 / 2)), 1200, 3600)])] (sub_X (- 86400)) []))
     = [ActivatedExpire 7]"
proof -
  have h1: "limit_expire (sub_X (- 86400)) < 0" by (simp add: sub_X_def)
  have h2: "(0::int) \<le> 5000" by simp
  have h3: "\<forall>tk\<in>set [(5000 :: int, [(node_N (Some (1 / 2)), 1000 :: int, 3600 :: int)]),
      (8600, [(node_N (Some (1 / 2)), 1200, 3600)])]. 0 \<le> fst tk" by simp
  have e1: "bulk_upsert_usages 5000 (sub_X (- 86400)) [(node_N (Some (1 / 2)), 1000, 3600)] []
      = \<lparr>res_sub = sub_X 91400, res_records = [],
         res_added = [new_usage_record 7 (node_N (Some (1 / 2))) 1000 3600],
         res_notifications = [ActivatedExpire 7]\<rparr>"
    by (simp add: bulk_upsert_usages_def activate_expire_def sub_X_def)
  have e2: "bulk_upsert_usages 5000 (sub_X (- 86400)) [(node_N (Some (1 / 2)), 0, 3600)] []
      = \<lparr>res_sub = sub_X (- 86400), res_records = [], res_added = [], res_notifications = []\<rparr>"
    by (simp add: bulk_upsert_usages_def)
  have e3: "bulk_upsert_usages 8600 (sub_X 91400) [(node_N (Some (1 / 2)), 1200, 3600)]
        [new_usage_record 7 (node_N (Some (1 / 2))) 1000 3600]
      = \<lparr>res_sub = sub_X 91400,
         res_records = [credited (node_N (Some (1 / 2))) 1200 8600
            (new_usage_record 7 (node_N (Some (1 / 2))) 1000 3600)],
         res_added = [], res_notifications = []\<rparr>"
    by (simp add: bulk_upsert_usages_def activate_expire_def sub_X_def new_usage_record_def
        credited_def node_N_def max_def)
  have computed: ?thesis by (simp add: e1 e2 e3 Let_def)
  note general = pending_expire_activated_once [OF h1 h2 h3,
        of "[(node_N (Some (1 / 2)), 1000, 3600)]" "[]" "node_N (Some (1 / 2))" 1000 3600]
  have agree: "res_sub (bulk_upsert_usages 5000 (sub_X (- 86400))
        [(node_N (Some (1 / 2)), 1000, 3600)] [])
      = (sub_X (- 86400))\<lparr>limit_expire := 5000 + \<bar>limit_expire (sub_X (- 86400))\<bar>\<rparr>"
    using general by (simp add: e1)
  show ?thesis by (rule conjunct2 [OF conjI [OF agree computed]])
qed

section \<open>Admin cache: claim C10\<close>

lemma update_cached_at: "cached_at (update admin c) = cached_at c"
  by (simp add: update_def Let_def split: option.splits)

lemma remove_cached_at: "cached_at (remove admin c) = cached_at c"
  by (simp add: remove_def Let_def)

lemma write_through_cached_at: "cached_at (write_through ws c) = cached_at c"
proof (induction ws arbitrary: c)
  case Nil
  then show ?case by simp
next
  case (Cons w ws)
  then show ?case by (cases w) (simp_all add: update_cached_at remove_cached_at)
qed

text \<open>
  Claim C10. More than 3000 seconds after the last \<open>set_all\<close>, every lookup returns
  nothing, whatever write-through updates and removals came in between: \<open>update\<close> enters
  the admin into the indices and leaves the cache's timestamp as \<open>set_all\<close> wrote it.
\<close>

theorem update_does_not_extend_ttl:
  assumes "now - t0 > 3000"
  shows "get_by_username now (write_through ws (set_all t0 admins c)) username = None
       \<and> get_by_id now (write_through ws (set_all t0 admins c)) aid = None
       \<and> get_by_api_key now (write_through ws (set_all t0 admins c)) k = None
       \<and> cached_at (update admin (set_all t0 admins c)) = t0
       \<and> by_username (update admin (set_all t0 admins c)) (admin_username admin) = Some admin
       \<and> get_by_username now (update admin (set_all t0 admins c)) (admin_username admin) = None"
proof -
  have at: "cached_at (write_through ws (set_all t0 admins c)) = t0"
    by (simp add: write_through_cached_at set_all_def)
  have at1: "cached_at (update admin (set_all t0 admins c)) = t0"
    by (simp add: update_cached_at set_all_def)
  have idx: "by_username (update admin (set_all t0 admins c)) (admin_username admin) = Some admin"
    by (simp add: update_def Let_def split: option.splits)
  show ?thesis
    using assms at at1 idx
    by (simp add: get_by_username_def get_by_id_def get_by_api_key_def is_expired_def
        CACHE_TTL_def)
qed

text \<open>Witness for C10: filled at time 100, admin updated, looked up at time 3101.\<close>

theorem update_does_not_extend_ttl_witness:
  "get_by_username 3101
     (write_through [Update \<lparr>admin_id = 1, admin_username = ''root'', api_key = Some ''k''\<rparr>]
        (set_all 100 [] init_cache)) ''root'' = None
   \<and> get_by_username 3100
     (write_through [Update \<lparr>admin_id = 1, admin_username = ''root'', api_key = Some ''k''\<rparr>]
        (set_all 100 [] init_cache)) ''root''
     = Some \<lparr>admin_id = 1, admin_username = ''root'', api_key = Some ''k''\<rparr>"
proof -
  have h: "(3101::real) - 100 > 3000" by simp
  have live: "get_by_username 3100
     (write_through [Update \<lparr>admin_id = 1, admin_username = ''root'', api_key = Some ''k''\<rparr>]
        (set_all 100 [] init_cache)) ''root''
     = Some \<lparr>admin_id = 1, admin_username = ''root'', api_key = Some ''k''\<rparr>"
    by (simp add: get_by_username_def is_expired_def CACHE_TTL_def update_def set_all_def
        init_cache_def has_api_key_def Let_def)
  show ?thesis
    using update_does_not_extend_ttl [OF h,
        of "[Update \<lparr>admin_id = 1, admin_username = ''root'', api_key = Some ''k''\<rparr>]"
           "[]" init_cache "''root''"] live
    by simp
qed

section \<open>Reconciler garbage collection: claim C8\<close>

lemma delete_calls_append: "delete_calls (xs @ ys) = delete_calls xs @ delete_calls ys"
  by (induction xs rule: delete_calls.induct) auto

lemma delete_calls_concat: "delete_calls (concat xss) = concat (map delete_calls xss)"
  by (induction xss) (auto simp: delete_calls_append)

lemma delete_calls_sync:
  "\<forall>t\<in>set tasks. \<exists>node sub user. t = SyncSubOnNode node sub user \<Longrightarrow> delete_calls tasks = []"
  by (induction tasks rule: delete_calls.induct) auto

lemma delete_calls_removals:
  "delete_calls (map (\<lambda>username. RemoveSubBounded username [node]) names)
     = map (\<lambda>username. (node_id node, username)) names"
  by (induction names) auto

lemma count_list_distinct:
  "distinct xs \<Longrightarrow> count_list xs x = (if x \<in> set xs then 1 else 0)"
  by (induction xs) auto


lemma delete_calls_perform:
  "delete_calls (perform_sync_operations now subs nodes_data)
     = concat (map (gc_deletes now subs) nodes_data)"
proof -
  have sync: "delete_calls (concat (map (\<lambda>sub.
                if \<not> should_be_remove now sub
                then concat (map (\<lambda>(node, configs, users).
                       if configs \<noteq> None
                       then [SyncSubOnNode node sub (map_of users (server_key sub))]
                       else []) nodes_data)
                else []) subs)) = []"
    by (rule delete_calls_sync) (auto split: if_splits)
  have gc: "\<And>L. delete_calls (concat (map (\<lambda>(node, configs, users).
             if configs = None then []
             else map (\<lambda>username. RemoveSubBounded username [node])
                    (filter (\<lambda>username. username \<notin> L \<and> username \<noteq> ''guard'')
                       (map fst users))) nodes_data))
        = concat (map (\<lambda>(node, configs, users).
             if configs = None then []
             else map (\<lambda>username. (node_id node, username))
                    (filter (\<lambda>username. username \<notin> L \<and> username \<noteq> ''guard'')
                       (map fst users))) nodes_data)"
    by (induction nodes_data) (auto simp: delete_calls_append delete_calls_removals)
  show ?thesis
    unfolding perform_sync_operations_def Let_def delete_calls_append sync gc
    by (simp add: gc_deletes_def [abs_def] case_prod_unfold)
qed


lemma gc_deletes_count:
  assumes "distinct (map fst users)"
  shows "count_list (gc_deletes now subs (node, configs, users)) (nid, username)
     = (if node_id node = nid \<and> configs \<noteq> None \<and> username \<in> fst ` set users
           \<and> username \<noteq> ''guard''
           \<and> username \<notin> server_key ` {sub \<in> set subs. \<not> should_be_remove now sub}
        then 1 else 0)"
proof (cases "configs = None")
  case True
  then show ?thesis by (simp add: gc_deletes_def)
next
  case False
  let ?names = "filter (\<lambda>username.
      username \<notin> set (map server_key (filter (\<lambda>sub. \<not> should_be_remove now sub) subs))
      \<and> username \<noteq> ''guard'') (map fst users)"
  have eq: "gc_deletes now subs (node, configs, users) = map (Pair (node_id node)) ?names"
    using False by (cases configs) (simp_all add: gc_deletes_def)
  have "distinct ?names" using assms by (rule distinct_filter)
  then have "distinct (map (Pair (node_id node)) ?names)"
    by (simp add: distinct_map inj_on_def)
  then have "count_list (map (Pair (node_id node)) ?names) (nid, username)
      = (if (nid, username) \<in> set (map (Pair (node_id node)) ?names) then 1 else 0)"
    by (rule count_list_distinct)
  then show ?thesis using False by (auto simp: eq)
qed

lemma gc_deletes_node: "(nid, username) \<in> set (gc_deletes now subs nd) \<Longrightarrow> node_id (fst nd) = nid"
  by (cases nd) (auto simp: gc_deletes_def split: if_splits)

text \<open>
  Claim C8, as amended. For each node whose fetch succeeded, a delete is issued exactly
  once for every reported username that is neither "guard" nor the \<open>server_key\<close> of a
  subscription of the run that is not \<open>should_be_remove\<close>, and for no other username. A live
  subscription that has been reached or inactive for more than a day is not protected.
\<close>

theorem delete_issued_once_for_unknown_users:
  assumes "distinct (map (\<lambda>nd. node_id (fst nd)) nodes_data)"
    and "\<forall>nd\<in>set nodes_data. distinct (map fst (snd (snd nd)))"
  shows "count_list (delete_calls (perform_sync_operations now subs nodes_data)) (nid, username)
     = (if (\<exists>nd\<in>set nodes_data. node_id (fst nd) = nid \<and> fst (snd nd) \<noteq> None
              \<and> username \<in> fst ` set (snd (snd nd)))
           \<and> username \<noteq> ''guard''
           \<and> username \<notin> server_key ` {sub \<in> set subs. \<not> should_be_remove now sub}
        then 1 else 0)"
proof -
  have "count_list (concat (map (gc_deletes now subs) nodes_data)) (nid, username)
     = (if (\<exists>nd\<in>set nodes_data. node_id (fst nd) = nid \<and> fst (snd nd) \<noteq> None
              \<and> username \<in> fst ` set (snd (snd nd)))
           \<and> username \<noteq> ''guard''
           \<and> username \<notin> server_key ` {sub \<in> set subs. \<not> should_be_remove now sub}
        then 1 else 0)"
    using assms
  proof (induction nodes_data)
    case Nil
    then show ?case by simp
  next
    case (Cons nd nds)
    obtain node configs users where nd: "nd = (node, configs, users)" by (cases nd) auto
    have d: "distinct (map fst users)" using Cons.prems(2) nd by simp
    note head = gc_deletes_count [OF d, of now subs node configs nid username]
    have IH: "count_list (concat (map (gc_deletes now subs) nds)) (nid, username)
       = (if (\<exists>nd\<in>set nds. node_id (fst nd) = nid \<and> fst (snd nd) \<noteq> None
                \<and> username \<in> fst ` set (snd (snd nd)))
             \<and> username \<noteq> ''guard''
             \<and> username \<notin> server_key ` {sub \<in> set subs. \<not> should_be_remove now sub}
          then 1 else 0)"
      using Cons.IH Cons.prems by simp
    show ?case
    proof (cases "node_id node = nid")
      case True
      have "\<forall>x\<in>set nds. node_id (fst x) \<noteq> nid"
      proof
        fix x assume "x \<in> set nds"
        then have "node_id (fst x) \<in> (\<lambda>nd. node_id (fst nd)) ` set nds" by (rule imageI)
        moreover have "node_id (fst nd) \<notin> (\<lambda>nd. node_id (fst nd)) ` set nds"
          using Cons.prems(1) by simp
        ultimately have "node_id (fst x) \<noteq> node_id (fst nd)" by metis
        then show "node_id (fst x) \<noteq> nid" using True nd by simp
      qed
      then show ?thesis using head IH True by (auto simp: nd)
    next
      case False
      then show ?thesis using head IH by (auto simp: nd)
    qed
  qed
  then show ?thesis by (simp add: delete_calls_perform)
qed


text \<open>
  Witness for C8: scenario S5. The node reports guard, srv_alice and srv_orphan, the one
  subscription has the server key srv_alice; the only delete is that of srv_orphan.
\<close>

theorem delete_issued_once_for_unknown_users_witness:
  "delete_calls (perform_sync_operations 5000 [sub_X 0]
      [(node_N None, Some [''vless''],
        [(''guard'', \<lparr>user_username = ''guard'', user_is_active = True\<rparr>),
         (''srv_alice'', \<lparr>user_username = ''srv_alice'', user_is_active = True\<rparr>),
         (''srv_orphan'', \<lparr>user_username = ''srv_orphan'', user_is_active = True\<rparr>)])])
     = [(1, ''srv_orphan'')]
   \<and> count_list (delete_calls (perform_sync_operations 5000 [sub_X 0]
      [(node_N None, Some [''vless''],
        [(''guard'', \<lparr>user_username = ''guard'', user_is_active = True\<rparr>),
         (''srv_alice'', \<lparr>user_username = ''srv_alice'', user_is_active = True\<rparr>),
         (''srv_orphan'', \<lparr>user_username = ''srv_orphan'', user_is_active = True\<rparr>)])]))
       (1, ''srv_orphan'') = 1"
proof -
  let ?nd = "[(node_N None, Some [''vless''],
        [(''guard'', \<lparr>user_username = ''guard'', user_is_active = True\<rparr>),
         (''srv_alice'', \<lparr>user_username = ''srv_alice'', user_is_active = True\<rparr>),
         (''srv_orphan'', \<lparr>user_username = ''srv_orphan'', user_is_active = True\<rparr>)])]"
  have h1: "distinct (map (\<lambda>nd. node_id (fst nd)) ?nd)" by simp
  have h2: "\<forall>nd\<in>set ?nd. distinct (map fst (snd (snd nd)))" by simp
  have keep: "\<not> should_be_remove 5000 (sub_X 0)"
    by (simp add: should_be_remove_def sub_X_def)
  have key: "server_key (sub_X 0) = ''srv_alice''" by (simp add: sub_X_def)
  have nid: "node_id (node_N None) = 1" by (simp add: node_N_def)
  have computed: "delete_calls (perform_sync_operations 5000 [sub_X 0] ?nd) = [(1, ''srv_orphan'')]"
    by (simp add: perform_sync_operations_def keep key nid)
  have agree: "count_list (delete_calls (perform_sync_operations 5000 [sub_X 0] ?nd))
      (1, ''srv_orphan'') = 1"
    using delete_issued_once_for_unknown_users [OF h1 h2, of 5000 "[sub_X 0]" 1 "''srv_orphan''"]
    by (auto simp: key nid split: if_splits)
  show ?thesis by (rule conjI [OF computed agree])
qed

text \<open>
  Claim C8 as stated fails: a subscription that is not removed, reached at time 0, is
  \<open>should_be_remove\<close> at time 100000, and the user with its server key is deleted from
  the node.
\<close>

theorem live_subscription_deleted_counterexample:
  "\<not> removed ((sub_X 0)\<lparr>reached := True, reached_at := Some 0\<rparr>)
   \<and> server_key ((sub_X 0)\<lparr>reached := True, reached_at := Some 0\<rparr>) = ''srv_alice''
   \<and> delete_calls (perform_sync_operations 100000
        [(sub_X 0)\<lparr>reached := True, reached_at := Some 0\<rparr>]
        [(node_N None, Some [''vless''],
          [(''srv_alice'', \<lparr>user_username = ''srv_alice'', user_is_active = True\<rparr>)])])
     = [(1, ''srv_alice'')]"
  by (simp add: perform_sync_operations_def should_be_remove_def sub_X_def node_N_def)

section \<open>Auto-renewal: claim C3\<close>

lemma filter_single:
  assumes "distinct xs" and "x \<in> set xs" and "P x" and "\<forall>y\<in>set xs. P y \<longrightarrow> y = x"
  shows "filter P xs = [x]"
proof -
  obtain ys zs where split: "xs = ys @ x # zs" using assms(2) by (meson split_list)
  have nys: "x \<notin> set ys" and nzs: "x \<notin> set zs" using assms(1) split by simp_all
  have "\<forall>y\<in>set ys. \<not> P y"
  proof
    fix y assume y: "y \<in> set ys"
    then have "y \<in> set xs" using split by simp
    with assms(4) have "P y \<longrightarrow> y = x" by (rule bspec)
    then show "\<not> P y" using y nys by metis
  qed
  then have ys: "filter P ys = []" by (simp add: filter_empty_conv)
  have "\<forall>y\<in>set zs. \<not> P y"
  proof
    fix y assume y: "y \<in> set zs"
    then have "y \<in> set xs" using split by simp
    with assms(4) have "P y \<longrightarrow> y = x" by (rule bspec)
    then show "\<not> P y" using y nzs by metis
  qed
  then have zs: "filter P zs = []" by (simp add: filter_empty_conv)
  show ?thesis using ys zs assms(3) by (simp add: split)
qed

lemma rn_first:
  "(rn renewals r = 1)
     = (\<forall>q\<in>set renewals. renewal_subscription_id q = renewal_subscription_id r
          \<longrightarrow> \<not> renewal_id q < renewal_id r)"
  by (auto simp: rn_def filter_empty_conv)

lemma apply_payload_id: "sub_id (apply_payload now_utc now_ts row sub) = sub_id sub"
  by (simp add: apply_payload_def Let_def)

lemma bulk_update_map:
  "bulk_update now_utc now_ts rows subs
     = map (\<lambda>sub. foldl (\<lambda>s row. if sub_id s = row_subscription_id row
                                    then apply_payload now_utc now_ts row s else s) sub rows) subs"
  by (induction rows arbitrary: subs) (simp_all add: comp_def)

lemma foldl_payload_id:
  "sub_id (foldl (\<lambda>s row. if sub_id s = row_subscription_id row
                            then apply_payload now_utc now_ts row s else s) sub rows) = sub_id sub"
  by (induction rows arbitrary: sub) (simp_all add: apply_payload_id)

lemma foldl_payload_filter:
  "foldl (\<lambda>s row. if sub_id s = row_subscription_id row
                   then apply_payload now_utc now_ts row s else s) sub rows
     = foldl (\<lambda>s row. apply_payload now_utc now_ts row s) sub
         (filter (\<lambda>row. row_subscription_id row = sub_id sub) rows)"
  by (induction rows arbitrary: sub) (simp_all add: apply_payload_id)

lemma candidates_query_set:
  "set (candidates_query now_ts subs renewals)
     = {candidate sub r | sub r. sub \<in> set subs \<and> r \<in> set renewals
          \<and> renewal_subscription_id r = sub_id sub \<and> \<not> removed sub \<and> reached sub
          \<and> (limited_expr sub \<or> expired_expr now_ts sub) \<and> rn renewals r = 1}"
  by (auto simp: candidates_query_def split: if_splits)


lemma join_rows:
  "concat (map (\<lambda>r. if renewal_subscription_id r = sub_id sub \<and> removed sub = False
                        \<and> reached sub = True \<and> (limited_expr sub \<or> expired_expr now_ts sub)
                        \<and> rn renewals r = 1
                     then [candidate sub r] else []) rs)
     = (if renewable now_ts sub
        then map (candidate sub)
               (filter (\<lambda>r. renewal_subscription_id r = sub_id sub \<and> rn renewals r = 1) rs)
        else [])"
proof (cases "renewable now_ts sub")
  case True
  then have q: "removed sub = False" "reached sub = True"
      "(limited_expr sub \<or> expired_expr now_ts sub) = True"
    by (simp_all add: renewable_def)
  show ?thesis using True by (induction rs) (simp_all add: q)
next
  case False
  then have "\<And>r. \<not> (renewal_subscription_id r = sub_id sub \<and> removed sub = False
      \<and> reached sub = True \<and> (limited_expr sub \<or> expired_expr now_ts sub)
      \<and> rn renewals r = 1)"
    unfolding renewable_def by blast
  then show ?thesis using False by (induction rs) simp_all
qed

lemma candidates_query_rows:
  "candidates_query now_ts subs renewals = concat (map (sub_rows now_ts renewals) subs)"
  unfolding candidates_query_def sub_rows_def join_rows ..

lemma sub_rows_id:
  "row \<in> set (sub_rows now_ts renewals sub) \<Longrightarrow> row_subscription_id row = sub_id sub"
  by (auto simp: sub_rows_def candidate_def split: if_splits)

lemma sub_rows_other:
  assumes "sub_id s \<noteq> sid"
  shows "filter (\<lambda>row. row_subscription_id row = sid) (sub_rows now_ts renewals s) = []"
proof -
  have "\<forall>row\<in>set (sub_rows now_ts renewals s). \<not> row_subscription_id row = sid"
    using assms sub_rows_id by metis
  then show ?thesis by (simp add: filter_empty_conv)
qed

lemma sub_rows_self:
  "filter (\<lambda>row. row_subscription_id row = sub_id s) (sub_rows now_ts renewals s)
     = sub_rows now_ts renewals s"
proof -
  have "\<forall>row\<in>set (sub_rows now_ts renewals s). row_subscription_id row = sub_id s"
    using sub_rows_id by metis
  then show ?thesis by (simp add: filter_id_conv)
qed

lemma rows_other_subs:
  assumes "\<forall>s\<in>set ss. sub_id s \<noteq> sid"
  shows "filter (\<lambda>row. row_subscription_id row = sid)
           (concat (map (sub_rows now_ts renewals) ss)) = []"
  using assms by (induction ss) (simp_all add: sub_rows_other)

lemma rows_of_subscription:
  assumes "distinct (map sub_id subs)" and "sub \<in> set subs"
  shows "filter (\<lambda>row. row_subscription_id row = sub_id sub)
           (candidates_query now_ts subs renewals) = sub_rows now_ts renewals sub"
proof -
  obtain ys zs where split: "subs = ys @ sub # zs" using assms(2) by (meson split_list)
  have "sub_id sub \<notin> sub_id ` set ys" and "sub_id sub \<notin> sub_id ` set zs"
    using assms(1) split by auto
  then have ys: "\<forall>s\<in>set ys. sub_id s \<noteq> sub_id sub" and zs: "\<forall>s\<in>set zs. sub_id s \<noteq> sub_id sub"
    by (metis imageI)+
  show ?thesis
    by (simp add: candidates_query_rows split rows_other_subs [OF ys] rows_other_subs [OF zs]
        sub_rows_self)
qed

lemma first_renewal_unique:
  assumes "distinct (map renewal_id renewals)" and "r \<in> set renewals"
    and "renewal_subscription_id r = sid"
    and "\<forall>q\<in>set renewals. renewal_subscription_id q = sid \<longrightarrow> renewal_id r \<le> renewal_id q"
  shows "filter (\<lambda>q. renewal_subscription_id q = sid \<and> rn renewals q = 1) renewals = [r]"
proof (rule filter_single)
  show "distinct renewals" using assms(1) by (simp add: distinct_map)
  show "r \<in> set renewals" by (rule assms(2))
  have inj: "inj_on renewal_id (set renewals)" using assms(1) by (simp add: distinct_map)
  have "rn renewals r = 1"
    unfolding rn_first
  proof (intro ballI impI)
    fix q assume q: "q \<in> set renewals" "renewal_subscription_id q = renewal_subscription_id r"
    with assms(4) have "renewal_subscription_id q = sid \<longrightarrow> renewal_id r \<le> renewal_id q"
      by (metis bspec)
    then show "\<not> renewal_id q < renewal_id r" using q(2) assms(3) by simp
  qed
  then show "renewal_subscription_id r = sid \<and> rn renewals r = 1" using assms(3) by simp
  show "\<forall>q\<in>set renewals. renewal_subscription_id q = sid \<and> rn renewals q = 1 \<longrightarrow> q = r"
  proof (intro ballI impI)
    fix q assume q: "q \<in> set renewals" and p: "renewal_subscription_id q = sid \<and> rn renewals q = 1"
    from assms(4) q have "renewal_subscription_id q = sid \<longrightarrow> renewal_id r \<le> renewal_id q"
      by (rule bspec)
    then have le: "renewal_id r \<le> renewal_id q" using p by simp
    have "\<forall>x\<in>set renewals. renewal_subscription_id x = renewal_subscription_id q
        \<longrightarrow> \<not> renewal_id x < renewal_id q"
      using p rn_first [of renewals q] by simp
    with assms(2) have "renewal_subscription_id r = renewal_subscription_id q
        \<longrightarrow> \<not> renewal_id r < renewal_id q"
      by (metis bspec)
    then have "\<not> renewal_id r < renewal_id q" using p assms(3) by simp
    then have "renewal_id q = renewal_id r" using le by simp
    then show "q = r" using inj q assms(2) by (meson inj_onD)
  qed
qed

lemma apply_payload_candidate:
  "apply_payload now_utc now_ts (candidate sub r) sub
     = sub\<lparr>limit_usage := renewal_limit_usage r,
           limit_expire :=
             (if renewal_limit_expire r < 0 then renewal_limit_expire r
              else if renewal_limit_expire r > 0 then now_ts + renewal_limit_expire r
              else 0),
           reached := False, reached_at := None,
           onreached_expire := False, onreached_usage := False,
           reset_usage := (if renewal_reset_usage r then Some (total_usage sub) else reset_usage sub),
           last_reset_at := (if renewal_reset_usage r then Some now_utc else last_reset_at sub)\<rparr>"
  by (cases "renewal_reset_usage r") (simp_all add: apply_payload_def candidate_def Let_def)

lemma bulk_update_subscription:
  assumes "distinct (map sub_id subs)" and "sub \<in> set subs"
  shows "filter (\<lambda>s. sub_id s = sub_id sub)
           (bulk_update now_utc now_ts (candidates_query now_ts subs renewals) subs)
     = [foldl (\<lambda>s row. apply_payload now_utc now_ts row s) sub (sub_rows now_ts renewals sub)]"
proof -
  let ?rows = "candidates_query now_ts subs renewals"
  let ?f = "\<lambda>sub. foldl (\<lambda>s row. if sub_id s = row_subscription_id row
                                    then apply_payload now_utc now_ts row s else s) sub ?rows"
  have inj: "inj_on sub_id (set subs)" and d: "distinct subs"
    using assms(1) by (simp_all add: distinct_map)
  have only: "filter (\<lambda>s. sub_id s = sub_id sub) subs = [sub]"
  proof (rule filter_single [OF d assms(2)])
    show "sub_id sub = sub_id sub" by simp
    show "\<forall>y\<in>set subs. sub_id y = sub_id sub \<longrightarrow> y = sub"
      using inj assms(2) by (meson inj_onD)
  qed
  have "filter (\<lambda>s. sub_id s = sub_id sub) (map ?f subs)
      = map ?f (filter (\<lambda>s. sub_id s = sub_id sub) subs)"
    by (simp add: filter_map comp_def foldl_payload_id)
  also have "\<dots> = [?f sub]" by (simp only: only list.map)
  also have "?f sub = foldl (\<lambda>s row. apply_payload now_utc now_ts row s) sub
      (filter (\<lambda>row. row_subscription_id row = sub_id sub) ?rows)"
    by (rule foldl_payload_filter)
  also have "filter (\<lambda>row. row_subscription_id row = sub_id sub) ?rows
      = sub_rows now_ts renewals sub"
    by (rule rows_of_subscription [OF assms])
  finally show ?thesis by (simp add: bulk_update_map)
qed

lemma consumed_renewal:
  assumes "distinct (map renewal_id renewals)" and "q \<in> set renewals"
  shows "(renewal_id q \<in> row_renewal_id ` set (candidates_query now_ts subs renewals))
     = (rn renewals q = 1
        \<and> (\<exists>s\<in>set subs. renewable now_ts s \<and> sub_id s = renewal_subscription_id q))"
proof
  have inj: "inj_on renewal_id (set renewals)" using assms(1) by (simp add: distinct_map)
  assume "renewal_id q \<in> row_renewal_id ` set (candidates_query now_ts subs renewals)"
  then obtain row where row: "row \<in> set (candidates_query now_ts subs renewals)"
    and id: "renewal_id q = row_renewal_id row" by auto
  from row obtain s q' where s: "s \<in> set subs" and q': "q' \<in> set renewals"
    and c: "row = candidate s q'" "renewal_subscription_id q' = sub_id s"
      "\<not> removed s" "reached s" "limited_expr s \<or> expired_expr now_ts s" "rn renewals q' = 1"
    unfolding candidates_query_set by blast
  have "renewal_id q' = renewal_id q" using id c(1) by (simp add: candidate_def)
  then have "q' = q" using inj q' assms(2) by (meson inj_onD)
  then show "rn renewals q = 1
      \<and> (\<exists>s\<in>set subs. renewable now_ts s \<and> sub_id s = renewal_subscription_id q)"
    using s c by (auto simp: renewable_def)
next
  assume a: "rn renewals q = 1
      \<and> (\<exists>s\<in>set subs. renewable now_ts s \<and> sub_id s = renewal_subscription_id q)"
  then obtain s where s: "s \<in> set subs" "renewable now_ts s" "sub_id s = renewal_subscription_id q"
    by blast
  have r1: "rn renewals q = 1" using a by simp
  have q: "\<not> removed s" "reached s" "limited_expr s \<or> expired_expr now_ts s"
    using s(2) by (simp_all add: renewable_def)
  have "candidate s q = candidate s q \<and> s \<in> set subs \<and> q \<in> set renewals
      \<and> renewal_subscription_id q = sub_id s \<and> \<not> removed s \<and> reached s
      \<and> (limited_expr s \<or> expired_expr now_ts s) \<and> rn renewals q = 1"
    using s(1,3) assms(2) q r1 by simp
  then have "candidate s q \<in> set (candidates_query now_ts subs renewals)"
    unfolding candidates_query_set by blast
  then have "row_renewal_id (candidate s q)
      \<in> row_renewal_id ` set (candidates_query now_ts subs renewals)" by (rule imageI)
  then show "renewal_id q \<in> row_renewal_id ` set (candidates_query now_ts subs renewals)"
    by (simp add: candidate_def)
qed

lemma process_auto_renewals_batch_fields:
  "fst (process_auto_renewals_batch now_utc now_ts subs renewals)
     = bulk_update now_utc now_ts (candidates_query now_ts subs renewals) subs"
  "fst (snd (process_auto_renewals_batch now_utc now_ts subs renewals))
     = filter (\<lambda>r. renewal_id r \<notin> row_renewal_id ` set (candidates_query now_ts subs renewals))
         renewals"
  "snd (snd (process_auto_renewals_batch now_utc now_ts subs renewals))
     = length (candidates_query now_ts subs renewals)"
  by (simp_all add: process_auto_renewals_batch_def Let_def)

text \<open>
  Claim C3. In one run of the batch, a subscription that is not removed, is reached and
  is limited or expired, and has renewals queued, takes the renewal \<open>r\<close> with the least
  id: its \<open>limit_usage\<close> becomes the renewal's, its \<open>limit_expire\<close> the renewal's value if
  negative, \<open>now_ts\<close> plus the value if positive, and 0 otherwise; \<open>reached\<close>,
  \<open>reached_at\<close> and both warning flags are cleared; with the renewal's \<open>reset_usage\<close> flag
  set, \<open>reset_usage\<close> becomes \<open>total_usage\<close> and \<open>last_reset_at\<close> the time of the run.
  Of the subscription's renewals exactly \<open>r\<close> is deleted, and every one that stays has a
  greater id, so the queue is consumed in ascending order, one row per run.
\<close>

theorem auto_renewal_takes_least_id:
  assumes "distinct (map sub_id subs)" and "distinct (map renewal_id renewals)"
    and "sub \<in> set subs" and "\<not> removed sub" and "reached sub"
    and "limited_expr sub \<or> expired_expr now_ts sub"
    and "r \<in> set renewals" and "renewal_subscription_id r = sub_id sub"
    and "\<forall>q\<in>set renewals. renewal_subscription_id q = sub_id sub \<longrightarrow> renewal_id r \<le> renewal_id q"
  shows "filter (\<lambda>s. sub_id s = sub_id sub)
           (fst (process_auto_renewals_batch now_utc now_ts subs renewals))
         = [sub\<lparr>limit_usage := renewal_limit_usage r,
                limit_expire :=
                  (if renewal_limit_expire r < 0 then renewal_limit_expire r
                   else if renewal_limit_expire r > 0 then now_ts + renewal_limit_expire r
                   else 0),
                reached := False, reached_at := None,
                onreached_expire := False, onreached_usage := False,
                reset_usage :=
                  (if renewal_reset_usage r then Some (total_usage sub) else reset_usage sub),
                last_reset_at :=
                  (if renewal_reset_usage r then Some now_utc else last_reset_at sub)\<rparr>]
       \<and> filter (\<lambda>q. renewal_subscription_id q = sub_id sub)
           (fst (snd (process_auto_renewals_batch now_utc now_ts subs renewals)))
         = filter (\<lambda>q. renewal_subscription_id q = sub_id sub \<and> q \<noteq> r) renewals
       \<and> r \<notin> set (fst (snd (process_auto_renewals_batch now_utc now_ts subs renewals)))
       \<and> (\<forall>q\<in>set (fst (snd (process_auto_renewals_batch now_utc now_ts subs renewals))).
             renewal_subscription_id q = sub_id sub \<longrightarrow> renewal_id r < renewal_id q)"
proof -
  let ?rows = "candidates_query now_ts subs renewals"
  let ?kept = "filter (\<lambda>q. renewal_id q \<notin> row_renewal_id ` set ?rows) renewals"
  have inj: "inj_on renewal_id (set renewals)" using assms(2) by (simp add: distinct_map)
  have ren: "renewable now_ts sub" using assms(4-6) by (simp add: renewable_def)
  have first: "filter (\<lambda>q. renewal_subscription_id q = sub_id sub \<and> rn renewals q = 1) renewals
      = [r]"
    by (rule first_renewal_unique [OF assms(2) assms(7) assms(8) assms(9)])
  have rows: "sub_rows now_ts renewals sub = [candidate sub r]"
    using ren first by (simp add: sub_rows_def)
  have updated: "filter (\<lambda>s. sub_id s = sub_id sub) (bulk_update now_utc now_ts ?rows subs)
      = [apply_payload now_utc now_ts (candidate sub r) sub]"
    using bulk_update_subscription [OF assms(1) assms(3), of now_utc now_ts renewals]
    by (simp add: rows)
  have consumed: "\<And>q. q \<in> set renewals \<Longrightarrow> renewal_subscription_id q = sub_id sub
      \<Longrightarrow> (renewal_id q \<in> row_renewal_id ` set ?rows) = (q = r)"
  proof -
    fix q assume q: "q \<in> set renewals" "renewal_subscription_id q = sub_id sub"
    have "(renewal_id q \<in> row_renewal_id ` set ?rows) = (rn renewals q = 1)"
      using consumed_renewal [OF assms(2) q(1), of now_ts subs] ren assms(3) q(2) by auto
    also have "\<dots> = (q \<in> set (filter (\<lambda>q. renewal_subscription_id q = sub_id sub
        \<and> rn renewals q = 1) renewals))"
      using q by simp
    also have "\<dots> = (q = r)" by (simp only: first) simp
    finally show "(renewal_id q \<in> row_renewal_id ` set ?rows) = (q = r)" .
  qed
  have queue: "filter (\<lambda>q. renewal_subscription_id q = sub_id sub) ?kept
      = filter (\<lambda>q. renewal_subscription_id q = sub_id sub \<and> q \<noteq> r) renewals"
    unfolding filter_filter
    by (rule filter_cong [OF refl]) (use consumed in blast)
  have gone: "r \<notin> set ?kept" using consumed [OF assms(7) assms(8)] by simp
  have asc: "\<forall>q\<in>set ?kept. renewal_subscription_id q = sub_id sub \<longrightarrow> renewal_id r < renewal_id q"
  proof (intro ballI impI)
    fix q assume q: "q \<in> set ?kept" and s: "renewal_subscription_id q = sub_id sub"
    then have mem: "q \<in> set renewals" by simp
    then have "q \<noteq> r" using q gone by metis
    then have ne: "renewal_id q \<noteq> renewal_id r" using inj mem assms(7) by (meson inj_onD)
    from assms(9) mem have "renewal_subscription_id q = sub_id sub \<longrightarrow> renewal_id r \<le> renewal_id q"
      by (rule bspec)
    then show "renewal_id r < renewal_id q" using s ne by simp
  qed
  show ?thesis
    unfolding process_auto_renewals_batch_fields
    using updated queue gone asc by (simp only: apply_payload_candidate) simp
qed

text \<open>
  Witness for C3: scenario S2 at time 5000, with a second renewal queued behind A. The
  subscription takes A, and B stays.
\<close>

theorem auto_renewal_takes_least_id_witness:
  "process_auto_renewals_batch 5000 5000
     [(sub_X 0)\<lparr>reached := True, limit_usage := Some 100, total_usage := 200,
                 reached_at := Some 4000\<rparr>]
     [renewal_B, renewal_A]
   = ([(sub_X 0)\<lparr>reached := False, limit_usage := Some 500, reset_usage := Some 200,
                  limit_expire := 91400, total_usage := 200, last_reset_at := Some 5000,
                  reached_at := None\<rparr>],
      [renewal_B], 1)"
proof -
  let ?sub = "(sub_X 0)\<lparr>reached := True, limit_usage := Some 100, total_usage := 200,
                 reached_at := Some 4000\<rparr>"
  have h1: "distinct (map sub_id [?sub])" by simp
  have h2: "distinct (map renewal_id [renewal_B, renewal_A])"
    by (simp add: renewal_A_def renewal_B_def)
  have h3: "?sub \<in> set [?sub]" by simp
  have h4: "\<not> removed ?sub" by (simp add: sub_X_def)
  have h5: "reached ?sub" by simp
  have h6: "limited_expr ?sub \<or> expired_expr 5000 ?sub"
    by (simp add: limited_expr_def coalesce_def sub_X_def)
  have h7: "renewal_A \<in> set [renewal_B, renewal_A]" by simp
  have h8: "renewal_subscription_id renewal_A = sub_id ?sub"
    by (simp add: renewal_A_def sub_X_def)
  have h9: "\<forall>q\<in>set [renewal_B, renewal_A]. renewal_subscription_id q = sub_id ?sub
      \<longrightarrow> renewal_id renewal_A \<le> renewal_id q"
    by (simp add: renewal_A_def renewal_B_def)
  have agree: "renewal_A \<notin> set (fst (snd (process_auto_renewals_batch 5000 5000 [?sub]
      [renewal_B, renewal_A])))"
    using auto_renewal_takes_least_id [OF h1 h2 h3 h4 h5 h6 h7 h8 h9, of 5000] by simp
  have rows: "candidates_query 5000 [?sub] [renewal_B, renewal_A] = [candidate ?sub renewal_A]"
    by (simp add: candidates_query_def rn_def limited_expr_def coalesce_def sub_X_def
        renewal_A_def renewal_B_def)
  have computed: "process_auto_renewals_batch 5000 5000 [?sub] [renewal_B, renewal_A]
   = ([(sub_X 0)\<lparr>reached := False, limit_usage := Some 500, reset_usage := Some 200,
                  limit_expire := 91400, total_usage := 200, last_reset_at := Some 5000,
                  reached_at := None\<rparr>],
      [renewal_B], 1)"
    by (simp add: process_auto_renewals_batch_def rows Let_def)
       (simp add: apply_payload_def candidate_def renewal_A_def renewal_B_def sub_X_def Let_def)
  show ?thesis by (rule conjunct2 [OF conjI [OF agree computed]])
qed

section \<open>Usage non-negativity: claim C7\<close>

lemma py_int_nonneg: "0 \<le> x \<Longrightarrow> 0 \<le> py_int x"
  by (simp add: py_int_def)

lemma usage_sum_append: "usage_sum sid (xs @ ys) = usage_sum sid xs + usage_sum sid ys"
  by (simp add: usage_sum_def)

lemma usage_sum_Cons:
  "usage_sum sid (r # rs)
     = (if subscription_id r = sid then max (usage r) 0 else 0) + usage_sum sid rs"
  by (simp add: usage_sum_def)

lemma usage_sum_nonneg: "0 \<le> usage_sum sid rows"
  by (induction rows) (simp_all add: usage_sum_Cons usage_sum_def)

lemma credit_grows:
  assumes "0 \<le> rate_or_default node" and "\<not> c - raw_usage r < 0"
  shows "usage r \<le> usage r + py_int (float_mul (c - raw_usage r) (rate_or_default node))"
proof -
  have "0 \<le> c - raw_usage r" using assms(2) by simp
  then have "0 \<le> float_mul (c - raw_usage r) (rate_or_default node)"
    using assms(1) by (rule float_mul_nonneg)
  then have "0 \<le> py_int (float_mul (c - raw_usage r) (rate_or_default node))"
    by (rule py_int_nonneg)
  then show ?thesis by simp
qed

lemma scan_records_skip:
  "\<not> (usage_node_id r = node_id node \<and> created_at r = t) \<Longrightarrow>
     snd (snd (scan_records node c t now (r # rs))) = r # snd (snd (scan_records node c t now rs))"
  by (auto simp: split_beta)

lemma scan_records_hit:
  "usage_node_id r = node_id node \<and> created_at r = t \<Longrightarrow>
     snd (snd (scan_records node c t now (r # rs)))
       = (if raw_usage r \<noteq> c \<and> \<not> c - raw_usage r < 0 then credited node c now r else r) # rs"
  by (simp add: Let_def credited_def max_def)

lemma credited_sum:
  assumes "0 \<le> rate_or_default node" and "\<not> c - raw_usage r < 0"
  shows "usage_sum sid [r] \<le> usage_sum sid [credited node c now r]"
proof -
  have "usage r \<le> usage (credited node c now r)"
    using credit_grows [OF assms] unfolding credited_def by (simp del: of_int_diff)
  moreover have "subscription_id (credited node c now r) = subscription_id r"
    by (simp add: credited_def)
  ultimately show ?thesis by (auto simp: usage_sum_def max_def)
qed

lemma scan_records_sum:
  assumes "0 \<le> rate_or_default node"
  shows "usage_sum sid recs \<le> usage_sum sid (snd (snd (scan_records node c t now recs)))"
proof (induction recs)
  case Nil
  then show ?case by simp
next
  case (Cons r rs)
  have split: "\<And>x xs. usage_sum sid (x # xs) = usage_sum sid [x] + usage_sum sid xs"
    by (simp add: usage_sum_def)
  show ?case
  proof (cases "usage_node_id r = node_id node \<and> created_at r = t")
    case False
    have "snd (snd (scan_records node c t now (r # rs)))
        = r # snd (snd (scan_records node c t now rs))"
      using False by (rule scan_records_skip)
    then have "usage_sum sid (snd (snd (scan_records node c t now (r # rs))))
        = usage_sum sid [r] + usage_sum sid (snd (snd (scan_records node c t now rs)))"
      using split [of r "snd (snd (scan_records node c t now rs))"]
      by (simp del: scan_records.simps)
    then show ?thesis using Cons split [of r rs] by (simp del: scan_records.simps)
  next
    case True
    note hit = scan_records_hit [OF True, of c now rs]
    show ?thesis
    proof (cases "raw_usage r \<noteq> c \<and> \<not> c - raw_usage r < 0")
      case False
      then have "snd (snd (scan_records node c t now (r # rs))) = r # rs"
        using hit by (auto simp del: scan_records.simps)
      then show ?thesis by (simp del: scan_records.simps)
    next
      case credit: True
      then have "usage_sum sid [r] \<le> usage_sum sid [credited node c now r]"
        using credited_sum [OF assms] by simp
      moreover have "snd (snd (scan_records node c t now (r # rs))) = credited node c now r # rs"
        using hit credit by (simp del: scan_records.simps)
      ultimately show ?thesis using split [of r rs] split [of "credited node c now r" rs]
        by (simp del: scan_records.simps)
    qed
  qed
qed

lemma bulk_upsert_loop_sum:
  assumes "list_all (\<lambda>e. 0 \<le> rate_or_default (fst e)) usages"
  shows "usage_sum sid recs + usage_sum sid added
       \<le> usage_sum sid (fst (bulk_upsert_loop s now usages recs added changed))
         + usage_sum sid (fst (snd (bulk_upsert_loop s now usages recs added changed)))"
  using assms
proof (induction usages arbitrary: recs added changed)
  case Nil
  then show ?case by simp
next
  case (Cons e es)
  obtain node c t where e: "e = (node, c, t)" by (cases e) auto
  obtain f ch recs' where sc: "scan_records node c t now recs = (f, ch, recs')"
    by (cases "scan_records node c t now recs") auto
  have rate: "0 \<le> rate_or_default node" and rest: "list_all (\<lambda>e. 0 \<le> rate_or_default (fst e)) es"
    using Cons.prems e by simp_all
  have grow: "usage_sum sid recs \<le> usage_sum sid recs'"
    using scan_records_sum [OF rate, of sid recs c t now] sc by simp
  have more: "usage_sum sid added \<le> usage_sum sid (added @ [new_usage_record s node c t])"
    using usage_sum_nonneg [of sid "[new_usage_record s node c t]"] by (simp add: usage_sum_append)
  show ?case
  proof (cases "c \<le> 0")
    case True
    then show ?thesis using Cons.IH [OF rest, of recs added changed] by (simp add: e)
  next
    case pos: False
    show ?thesis
    proof (cases f)
      case False
      then show ?thesis
        using Cons.IH [OF rest, of recs' "added @ [new_usage_record s node c t]" True] pos grow more
        by (simp add: e sc)
    next
      case True
      then show ?thesis
        using Cons.IH [OF rest, of recs' added "changed \<or> ch"] pos grow
        by (simp add: e sc)
    qed
  qed
qed

lemma replace_first_sum:
  "find P rows = Some x \<Longrightarrow> usage_sum sid [x] \<le> usage_sum sid [y]
    \<Longrightarrow> usage_sum sid rows \<le> usage_sum sid (replace_first P y rows)"
proof (induction rows)
  case Nil
  then show ?case by simp
next
  case (Cons a rows)
  have split: "\<And>x xs. usage_sum sid (x # xs) = usage_sum sid [x] + usage_sum sid xs"
    by (simp add: usage_sum_def)
  show ?case
  proof (cases "P a")
    case True
    then have "a = x" using Cons.prems(1) by simp
    then show ?thesis using True Cons.prems(2) split [of x rows] split [of y rows] by simp
  next
    case False
    then have "find P rows = Some x" using Cons.prems(1) by simp
    then have "usage_sum sid rows \<le> usage_sum sid (replace_first P y rows)"
      using Cons.IH Cons.prems(2) by simp
    then show ?thesis
      using False split [of a rows] split [of a "replace_first P y rows"] by simp
  qed
qed

lemma activate_expire_usage:
  "total_usage (fst (activate_expire now sub)) = total_usage sub
   \<and> reset_usage (fst (activate_expire now sub)) = reset_usage sub
   \<and> sub_id (fst (activate_expire now sub)) = sub_id sub"
  by (simp add: activate_expire_def)

lemma upsert_usage_cases:
  obtains (idle) "upsert_usage now sub node c t rows
        = \<lparr>res_sub = sub, res_records = rows, res_added = [], res_notifications = []\<rparr>"
  | (insert) "upsert_usage now sub node c t rows
        = \<lparr>res_sub = fst (activate_expire now sub), res_records = rows,
           res_added = [new_usage_record (sub_id sub) node c t],
           res_notifications = snd (activate_expire now sub)\<rparr>"
  | (reset) existing where "find (usage_key (sub_id sub) node t) rows = Some existing"
      "upsert_usage now sub node c t rows
        = \<lparr>res_sub = fst (activate_expire now sub),
           res_records = replace_first (usage_key (sub_id sub) node t)
             (existing\<lparr>raw_usage := c, updated_at := Some now\<rparr>) rows,
           res_added = [], res_notifications = snd (activate_expire now sub)\<rparr>"
  | (credit) existing where "find (usage_key (sub_id sub) node t) rows = Some existing"
      "\<not> c - raw_usage existing < 0"
      "upsert_usage now sub node c t rows
        = \<lparr>res_sub = fst (activate_expire now sub),
           res_records = replace_first (usage_key (sub_id sub) node t)
             (credited node c now existing) rows,
           res_added = [], res_notifications = snd (activate_expire now sub)\<rparr>"
proof (cases "c \<le> 0")
  case True
  then show ?thesis by (intro idle) (simp add: upsert_usage_def)
next
  case pos: False
  show ?thesis
  proof (cases "find (usage_key (sub_id sub) node t) rows")
    case None
    show ?thesis using pos None by (intro insert) (simp add: upsert_usage_def split_beta)
  next
    case (Some existing)
    show ?thesis
    proof (cases "raw_usage existing = c")
      case True
      show ?thesis using pos Some True by (intro idle) (simp add: upsert_usage_def)
    next
      case False
      show ?thesis
      proof (cases "c - raw_usage existing < 0")
        case True
        show ?thesis using pos Some False True
          by (intro reset [of existing]) (simp_all add: upsert_usage_def split_beta Let_def)
      next
        case nonneg: False
        show ?thesis using pos Some False nonneg
          by (intro credit [of existing])
             (simp_all add: upsert_usage_def split_beta Let_def credited_def max_def)
      qed
    qed
  qed
qed

lemma upsert_usage_sum:
  assumes "0 \<le> rate_or_default node"
  shows "usage_sum sid rows
       \<le> usage_sum sid (res_records (upsert_usage now sub node c t rows)
            @ res_added (upsert_usage now sub node c t rows))"
proof (cases rule: upsert_usage_cases [of now sub node c t rows])
  case idle
  then show ?thesis by simp
next
  case insert
  then show ?thesis
    using usage_sum_nonneg [of sid "[new_usage_record (sub_id sub) node c t]"]
    by (simp add: usage_sum_append)
next
  case (reset existing)
  have "usage_sum sid [existing] \<le> usage_sum sid [existing\<lparr>raw_usage := c, updated_at := Some now\<rparr>]"
    by (simp add: usage_sum_def)
  then show ?thesis using replace_first_sum [OF reset(1)] reset(2) by simp
next
  case (credit existing)
  have "usage_sum sid [existing] \<le> usage_sum sid [credited node c now existing]"
    by (rule credited_sum [OF assms credit(2)])
  then show ?thesis using replace_first_sum [OF credit(1)] credit(3) by simp
qed

lemma upsert_usage_sub:
  "total_usage (res_sub (upsert_usage now sub node c t rows)) = total_usage sub
   \<and> reset_usage (res_sub (upsert_usage now sub node c t rows)) = reset_usage sub
   \<and> sub_id (res_sub (upsert_usage now sub node c t rows)) = sub_id sub"
  by (cases rule: upsert_usage_cases [of now sub node c t rows])
     (simp_all add: activate_expire_usage)

lemma bulk_upsert_usages_sub:
  "total_usage (res_sub (bulk_upsert_usages now sub usages rows)) = total_usage sub
   \<and> reset_usage (res_sub (bulk_upsert_usages now sub usages rows)) = reset_usage sub
   \<and> sub_id (res_sub (bulk_upsert_usages now sub usages rows)) = sub_id sub"
  by (simp add: bulk_upsert_usages_fields(3) activate_expire_usage)

lemma bulk_upsert_usages_sum:
  assumes "list_all (\<lambda>e. 0 \<le> rate_or_default (fst e)) usages"
  shows "usage_sum sid rows
       \<le> usage_sum sid (res_records (bulk_upsert_usages now sub usages rows)
            @ res_added (bulk_upsert_usages now sub usages rows))"
  using bulk_upsert_loop_sum [OF assms, of sid rows "[]" "sub_id sub" now False]
  by (simp add: bulk_upsert_usages_fields(1,2) usage_sum_append usage_sum_def)

lemma core_step_inv:
  assumes "rates_nonneg op" and "usage_inv st"
  shows "usage_inv (core_step op st)"
proof -
  obtain sub rows where st: "st = (sub, rows)" by (cases st) auto
  have inv: "coalesce (reset_usage sub) 0 \<le> total_usage sub"
      "total_usage sub \<le> usage_sum (sub_id sub) rows"
    using assms(2) by (simp_all add: usage_inv_def st)
  show ?thesis
  proof (cases op)
    case (UpsertUsages now usages)
    then have "list_all (\<lambda>e. 0 \<le> rate_or_default (fst e)) usages" using assms(1) by simp
    note grow = bulk_upsert_usages_sum [OF this, of "sub_id sub" rows now sub]
    show ?thesis
      using inv grow bulk_upsert_usages_sub [of now sub usages rows]
      by (simp add: UpsertUsages st usage_inv_def Let_def)
  next
    case (UpsertUsage now node c t)
    then have "0 \<le> rate_or_default node" using assms(1) by simp
    note grow = upsert_usage_sum [OF this, of "sub_id sub" rows now sub c t]
    show ?thesis
      using inv grow upsert_usage_sub [of now sub node c t rows]
      by (simp add: UpsertUsage st usage_inv_def Let_def)
  next
    case SyncCachedUsages
    show ?thesis using inv by (simp add: SyncCachedUsages st usage_inv_def sync_cached_usages_def)
  next
    case (ResetUsages now)
    show ?thesis
      using inv by (simp add: ResetUsages st usage_inv_def reset_usages_def coalesce_def)
  next
    case (AutoRenewal now r)
    show ?thesis
      using inv
      by (simp add: AutoRenewal st usage_inv_def apply_payload_candidate coalesce_def)
  qed
qed

lemma core_run_inv:
  "list_all rates_nonneg ops \<Longrightarrow> usage_inv st \<Longrightarrow> usage_inv (core_run ops st)"
proof (induction ops arbitrary: st)
  case Nil
  then show ?case by simp
next
  case (Cons op ops)
  then show ?case using core_step_inv [of op st] by simp
qed

text \<open>
  Claim C7, as amended. Starting from a subscription whose reset mark is at most its
  cached total, itself at most the sum of its usage rows (a new subscription has all three
  at zero), and as long as no node read by an upsert has a negative \<open>usage_rate\<close>, every
  run of usage upserts, cache refreshes, usage resets and auto-renewals leaves
  \<open>current_usage = total_usage - reset_usage\<close> at zero or above.
\<close>

theorem current_usage_nonneg:
  assumes "usage_inv (sub, rows)" and "list_all rates_nonneg ops"
  shows "0 \<le> current_usage (fst (core_run ops (sub, rows)))
       \<and> usage_inv (core_run ops (sub, rows))"
proof -
  have inv: "usage_inv (core_run ops (sub, rows))"
    by (rule core_run_inv [OF assms(2) assms(1)])
  obtain sub' rows' where r: "core_run ops (sub, rows) = (sub', rows')"
    by (cases "core_run ops (sub, rows)") auto
  have "coalesce (reset_usage sub') 0 \<le> total_usage sub'"
    using inv by (simp add: r usage_inv_def)
  then have "0 \<le> current_usage sub'"
    by (simp add: current_usage_def coalesce_def split: option.splits)
  then show ?thesis using inv by (simp add: r)
qed

text \<open>
  Claim C7 as stated fails once a node's \<open>usage_rate\<close> is negative, which no validator
  excludes: 10 bytes are credited and cached, the usage is reset, then the counter grows
  by 5 on the node now rated -1, the row drops to 5 and the refreshed total with it.
\<close>

theorem negative_rate_counterexample:
  "current_usage (fst (core_run
      [UpsertUsages 5000 [(node_N (Some 1), 10, 3600)], SyncCachedUsages, ResetUsages 5100,
       UpsertUsages 5200 [(node_N (Some (- 1)), 15, 3600)], SyncCachedUsages]
      (sub_X 0, []))) = - 5"
  by code_simp

text \<open>Witness for C7: the same run with the rate 0.5 ends with a current usage of 2.\<close>

theorem current_usage_nonneg_witness:
  "usage_inv (sub_X 0, [])
   \<and> current_usage (fst (core_run
      [UpsertUsages 5000 [(node_N (Some 1), 10, 3600)], SyncCachedUsages, ResetUsages 5100,
       UpsertUsages 5200 [(node_N (Some (1 / 2)), 15, 3600)], SyncCachedUsages]
      (sub_X 0, []))) = 2"
proof -
  let ?ops = "[UpsertUsages 5000 [(node_N (Some 1), 10, 3600)], SyncCachedUsages,
       ResetUsages 5100, UpsertUsages 5200 [(node_N (Some (1 / 2)), 15, 3600)],
       SyncCachedUsages]"
  have h1: "usage_inv (sub_X 0, [])"
    by (simp add: usage_inv_def sub_X_def coalesce_def usage_sum_def)
  have h2: "list_all rates_nonneg ?ops"
    by (simp add: rate_or_default_def node_N_def)
  have computed: "current_usage (fst (core_run ?ops (sub_X 0, []))) = 2"
    by code_simp
  have agree: "usage_inv (core_run ?ops (sub_X 0, []))"
    using current_usage_nonneg [OF h1 h2] by simp
  show ?thesis by (rule conjunct2 [OF conjI [OF agree conjI [OF h1 computed]]])
qed

section \<open>Link bundle: claim C9\<close>

lemma py_take_drop: "py_take k xs @ py_drop k xs = xs"
  by (simp add: py_take_def py_drop_def)



lemma all_links_empty: "list_all (\<lambda>e. snd e = []) nmap \<Longrightarrow> all_links nmap = []"
  by (induction nmap) (simp_all add: all_links_def)


lemma reached_max_iff:
  "cap_ok cap \<Longrightarrow>
     reached_max cap links = (case cap of None \<Rightarrow> False | Some m \<Rightarrow> nat m \<le> length links)"
  by (cases cap) (auto simp: reached_max_def cap_ok_def)




lemma cap_from_all:
  "cap_ok cap \<Longrightarrow> \<not> reached_max cap (links @ cap_from cap links xs) \<Longrightarrow> cap_from cap links xs = xs"
proof (cases cap)
  case None
  then show ?thesis by (simp add: cap_from_def)
next
  case (Some m)
  assume "cap_ok cap" and "\<not> reached_max cap (links @ cap_from cap links xs)"
  then have "length links + min (length xs) (nat m - length links) < nat m"
    using Some by (simp add: reached_max_iff cap_from_def)
  then have "length xs \<le> nat m - length links" by (simp add: min_def split: if_splits)
  then show ?thesis using Some by (simp add: cap_from_def)
qed

lemma reached_max_append:
  "cap_ok cap \<Longrightarrow> reached_max cap links \<Longrightarrow> reached_max cap (links @ xs)"
  by (cases cap) (simp_all add: reached_max_iff)
























lemma interleave_stuck:
  "py_take (batch_size node) node_links = [] \<Longrightarrow> node_links \<noteq> [] \<Longrightarrow>
     \<not> reached_max cap links \<Longrightarrow> interleave fuel cap [(node, node_links)] links = None"
proof (induction fuel)
  case 0
  then show ?case by simp
next
  case (Suc fuel)
  have "py_drop (batch_size node) node_links = node_links"
    using py_take_drop [of "batch_size node" node_links] Suc.prems(1) by simp
  then show ?case using Suc by simp
qed



text \<open>
  The batch sizes of at least 1 are needed. For a node that holds links and has a batch
  size of 0, or a negative one that no link gets past, the \<open>while\<close> loop takes nothing
  from the node and never ends, whatever the fuel, with or without an owner's \<open>max_links\<close>.
\<close>

lemma generate_needs_positive_batch_size:
  "(\<forall>fuel. generate fuel 5000 (\<lambda>xs. xs) links_cache keep_link [''ph''] (sub_X 0)
       [node_P 1 0 0] None = None)
   \<and> (\<forall>fuel. generate fuel 5000 (\<lambda>xs. xs) links_cache keep_link [''ph''] (sub_X 0)
       [node_P 1 0 0] (Some 4) = None)
   \<and> (\<forall>fuel. generate fuel 5000 (\<lambda>xs. xs) links_cache keep_link [''ph''] (sub_X 0)
       [node_P 2 (- 2) 0] None = None)"
proof -
  have act: "is_active 5000 (sub_X 0)" by code_simp
  have m1: "node_links_map (\<lambda>xs. xs) links_cache keep_link [node_P 1 0 0]
      = [(node_P 1 0 0, [''a1'', ''a2'', ''a3''])]" by code_simp
  have m2: "node_links_map (\<lambda>xs. xs) links_cache keep_link [node_P 2 (- 2) 0]
      = [(node_P 2 (- 2) 0, [''b1'', ''b2''])]" by code_simp
  have t1: "py_take (batch_size (node_P 1 0 0)) [''a1'', ''a2'', ''a3''] = []" by code_simp
  have t2: "py_take (batch_size (node_P 2 (- 2) 0)) [''b1'', ''b2''] = []" by code_simp
  have s1: "interleave fuel cap [(node_P 1 0 0, [''a1'', ''a2'', ''a3''])] [] = None"
    if "\<not> reached_max cap []" for fuel cap
    using t1 _ that by (rule interleave_stuck) simp
  have s2: "interleave fuel None [(node_P 2 (- 2) 0, [''b1'', ''b2''])] [] = None" for fuel
    by (rule interleave_stuck [OF t2]) (simp_all add: reached_max_def)
  have "generate fuel 5000 (\<lambda>xs. xs) links_cache keep_link [''ph''] (sub_X 0)
       [node_P 1 0 0] None = None" for fuel
    using act m1 s1 [of None fuel] by (simp add: generate_def max_links_of_def reached_max_def)
  moreover have "generate fuel 5000 (\<lambda>xs. xs) links_cache keep_link [''ph''] (sub_X 0)
       [node_P 1 0 0] (Some 4) = None" for fuel
    using act m1 s1 [of "Some 4" fuel] by (simp add: generate_def max_links_of_def reached_max_def)
  moreover have "generate fuel 5000 (\<lambda>xs. xs) links_cache keep_link [''ph''] (sub_X 0)
       [node_P 2 (- 2) 0] None = None" for fuel
    using act m2 s2 [of fuel] by (simp add: generate_def max_links_of_def)
  ultimately show ?thesis by blast
qed

(* VERIFICATION *)

end
